theory Spec2Isabelle
  imports Main "HOL-Library.Word"
begin

unbundle bit_operations_syntax

section \<open>The SSD1306lite driver: data model\<close>

text \<open>
  The driver of \<^verbatim>\<open>ssd1306lite.cpp\<close> bit-bangs an I2C-like link on two pins of
  the AVR port C. The model keeps the two registers the code writes (\<open>PORTC\<close>, \<open>DDRC\<close>),
  the only field of the class (\<open>fInvertData\<close>) and, as a ghost field, the sequence of
  writes to the two line levels in the order the code performs them (\<open>wire\<close>).
  Every byte the driver transmits goes through \<open>i2cSendByte\<close>, which is made of these
  writes only, so \<open>wire\<close> is the complete observable behaviour on the link.
\<close>

type_synonym u8 = "8 word"

datatype line_op = SclHigh | SclLow | SdaHigh | SdaLow

record display =
  PORTC :: u8
  DDRC :: u8
  fInvertData :: bool
  wire :: "line_op list"

text \<open>Pin numbers of \<^verbatim>\<open>PC5\<close> and \<^verbatim>\<open>PC4\<close> in the AVR port C (from avr/io.h).\<close>

definition SCL_PIN :: nat where "SCL_PIN = 5"
definition SDA_PIN :: nat where "SDA_PIN = 4"

definition SSD1306_ADDR :: u8 where "SSD1306_ADDR = 0x78"

definition NUM_ROWS :: u8 where "NUM_ROWS = 8"
definition NUM_COLUMNS :: u8 where "NUM_COLUMNS = 128"

definition CMD_SET_COLUMN_LO :: u8 where "CMD_SET_COLUMN_LO = 0x00"
definition CMD_SET_COLUMN_HI :: u8 where "CMD_SET_COLUMN_HI = 0x10"
definition CMD_ADDRESS_MODE :: u8 where "CMD_ADDRESS_MODE = 0x20"
definition CMD_SET_START_LINE :: u8 where "CMD_SET_START_LINE = 0x40"
definition CMD_SET_CONTRAST :: u8 where "CMD_SET_CONTRAST = 0x81"
definition CMD_CHARGE_PUMP :: u8 where "CMD_CHARGE_PUMP = 0x8d"
definition CMD_HORIZONTAL_REMAP :: u8 where "CMD_HORIZONTAL_REMAP = 0xa1"
definition CMD_RAM_ENABLE :: u8 where "CMD_RAM_ENABLE = 0xa4"
definition CMD_INVERT_OFF :: u8 where "CMD_INVERT_OFF = 0xa6"
definition CMD_INVERT_ON :: u8 where "CMD_INVERT_ON = 0xa7"
definition CMD_MULTIPLEX_RATIO :: u8 where "CMD_MULTIPLEX_RATIO = 0xa8"
definition CMD_DISPLAY_OFF :: u8 where "CMD_DISPLAY_OFF = 0xae"
definition CMD_DISPLAY_ON :: u8 where "CMD_DISPLAY_ON = 0xaf"
definition CMD_SET_ROW :: u8 where "CMD_SET_ROW = 0xb0"
definition CMD_VERTICAL_REMAP :: u8 where "CMD_VERTICAL_REMAP = 0xc8"
definition CMD_DISPLAY_OFFSET :: u8 where "CMD_DISPLAY_OFFSET = 0xD3"
definition CMD_DIVIDE_AND_FREQ :: u8 where "CMD_DIVIDE_AND_FREQ = 0xD5"
definition CMD_PRE_CHARGE_PERIOD :: u8 where "CMD_PRE_CHARGE_PERIOD = 0xD9"
definition CMD_COM_PIN_CONFIG :: u8 where "CMD_COM_PIN_CONFIG = 0xDA"
definition CMD_VCOMH_LEVEL :: u8 where "CMD_VCOMH_LEVEL = 0xDB"

definition SSD1306_CTL_COMMAND :: u8 where "SSD1306_CTL_COMMAND = 0x00"
definition SSD1306_CTL_DATA :: u8 where "SSD1306_CTL_DATA = 0x40"

definition initCommands :: "u8 list" where
  "initCommands =
    [CMD_DISPLAY_OFF,
     CMD_MULTIPLEX_RATIO, 63,
     CMD_DISPLAY_OFFSET, 0,
     CMD_SET_START_LINE,
     CMD_HORIZONTAL_REMAP,
     CMD_VERTICAL_REMAP,
     CMD_ADDRESS_MODE, 2,
     CMD_SET_CONTRAST, 127,
     CMD_INVERT_OFF,
     CMD_RAM_ENABLE,
     CMD_DIVIDE_AND_FREQ, 0xF0,
     CMD_PRE_CHARGE_PERIOD, 0x22,
     CMD_COM_PIN_CONFIG, 0x12,
     CMD_VCOMH_LEVEL, 0x20,
     CMD_CHARGE_PUMP, 0x14,
     CMD_DISPLAY_ON]"

section \<open>Pin access\<close>

definition SCL_MODE_OUTPUT :: "display \<Rightarrow> display" where
  "SCL_MODE_OUTPUT s = s\<lparr>DDRC := DDRC s OR push_bit SCL_PIN 1\<rparr>"

definition SDA_MODE_OUTPUT :: "display \<Rightarrow> display" where
  "SDA_MODE_OUTPUT s = s\<lparr>DDRC := DDRC s OR push_bit SDA_PIN 1\<rparr>"

definition SCL_high :: "display \<Rightarrow> display" where
  "SCL_high s = s\<lparr>PORTC := PORTC s OR push_bit SCL_PIN 1, wire := wire s @ [SclHigh]\<rparr>"

definition SCL_low :: "display \<Rightarrow> display" where
  "SCL_low s = s\<lparr>PORTC := PORTC s AND NOT (push_bit SCL_PIN 1), wire := wire s @ [SclLow]\<rparr>"

definition SDA_high :: "display \<Rightarrow> display" where
  "SDA_high s = s\<lparr>PORTC := PORTC s OR push_bit SDA_PIN 1, wire := wire s @ [SdaHigh]\<rparr>"

definition SDA_low :: "display \<Rightarrow> display" where
  "SDA_low s = s\<lparr>PORTC := PORTC s AND NOT (push_bit SDA_PIN 1), wire := wire s @ [SdaLow]\<rparr>"

text \<open>The level the driver currently drives on each line.\<close>

definition clock_level :: "display \<Rightarrow> bool" where
  "clock_level s = bit (PORTC s) SCL_PIN"

definition data_level :: "display \<Rightarrow> bool" where
  "data_level s = bit (PORTC s) SDA_PIN"

definition lines_idle :: "display \<Rightarrow> bool" where
  "lines_idle s = (clock_level s \<and> data_level s)"

section \<open>The link transmitter\<close>

definition i2cSendBegin :: "display \<Rightarrow> display" where
  "i2cSendBegin s = SCL_low (SDA_low (SDA_high (SCL_high s)))"

definition i2cSendEnd :: "display \<Rightarrow> display" where
  "i2cSendEnd s = SDA_high (SCL_high (SDA_low (SCL_low s)))"

text \<open>The loop of \<open>i2cSendByte\<close> over the mask: \<^verbatim>\<open>for (mask = 0x80; mask; mask >>= 1)\<close>.\<close>

function i2cSendByte_loop :: "u8 \<Rightarrow> u8 \<Rightarrow> display \<Rightarrow> display" where
  "i2cSendByte_loop b msk s =
     (if msk = 0 then s
      else i2cSendByte_loop b (drop_bit 1 msk)
             (SCL_low (SCL_high ((if b AND msk \<noteq> 0 then SDA_high else SDA_low) s))))"
  by pat_completeness auto
termination
proof (relation "measure (\<lambda>(b, msk, s). unat msk)")
  show "wf (measure (\<lambda>(b, msk, s). unat msk))" by simp
next
  fix b msk :: u8 and s :: display
  assume "msk \<noteq> 0"
  then have "0 < unat msk" by (simp add: unat_gt_0)
  then have "unat msk div 2 < unat msk" by simp
  then show "((b, drop_bit 1 msk,
               SCL_low (SCL_high ((if b AND msk \<noteq> 0 then SDA_high else SDA_low) s))),
              (b, msk, s)) \<in> measure (\<lambda>(b, msk, s). unat msk)"
    by (simp add: drop_bit_eq_div unat_div)
qed

declare i2cSendByte_loop.simps [simp del]

definition i2cSendByte :: "u8 \<Rightarrow> display \<Rightarrow> display" where
  "i2cSendByte b s = SCL_low (SCL_high (SDA_high (i2cSendByte_loop b 0x80 s)))"

section \<open>The controller framing protocol\<close>

definition ssd1306DataBegin :: "display \<Rightarrow> display" where
  "ssd1306DataBegin s = i2cSendByte SSD1306_CTL_DATA (i2cSendByte SSD1306_ADDR (i2cSendBegin s))"

definition ssd1306DataEnd :: "display \<Rightarrow> display" where
  "ssd1306DataEnd s = i2cSendEnd s"

text \<open>\<^verbatim>\<open>i2cSendByte(fInvertData ? ~b : b)\<close>: the complement is truncated to 8 bits by the call.\<close>

definition ssd1306DataPutByte :: "u8 \<Rightarrow> display \<Rightarrow> display" where
  "ssd1306DataPutByte b s = i2cSendByte (if fInvertData s then NOT b else b) s"

definition ssd1306CmdBegin :: "display \<Rightarrow> display" where
  "ssd1306CmdBegin s = i2cSendByte SSD1306_CTL_COMMAND (i2cSendByte SSD1306_ADDR (i2cSendBegin s))"

definition ssd1306CmdEnd :: "display \<Rightarrow> display" where
  "ssd1306CmdEnd s = i2cSendEnd s"

definition ssd1306SendCommand :: "u8 \<Rightarrow> display \<Rightarrow> display" where
  "ssd1306SendCommand b s = ssd1306CmdEnd (i2cSendByte b (ssd1306CmdBegin s))"

section \<open>The public operations\<close>

text \<open>The constructor: only \<open>fInvertData\<close> is set; the registers are whatever they are.\<close>

definition SSD1306Display :: "u8 \<Rightarrow> u8 \<Rightarrow> display" where
  "SSD1306Display portc ddrc = \<lparr>PORTC = portc, DDRC = ddrc, fInvertData = False, wire = []\<rparr>"

definition initialize :: "display \<Rightarrow> display" where
  "initialize s =
     ssd1306CmdEnd (fold i2cSendByte initCommands
       (ssd1306CmdBegin (SDA_high (SCL_high (SDA_MODE_OUTPUT (SCL_MODE_OUTPUT s))))))"

definition setPosition :: "u8 \<Rightarrow> u8 \<Rightarrow> display \<Rightarrow> display" where
  "setPosition row column s =
     (if row \<ge> NUM_ROWS \<or> column \<ge> NUM_COLUMNS then s
      else ssd1306CmdEnd
             (i2cSendByte (CMD_SET_COLUMN_LO OR (column AND 0x0f))
               (i2cSendByte (CMD_SET_COLUMN_HI OR (drop_bit 4 column AND 0x0f))
                 (i2cSendByte (CMD_SET_ROW OR row)
                   (ssd1306CmdBegin s)))))"

definition invertData :: "bool \<Rightarrow> display \<Rightarrow> display" where
  "invertData b s = s\<lparr>fInvertData := b\<rparr>"

text \<open>
  A C string is modelled by the list of its characters before the terminating NUL: the
  end of the list is the terminator, and a NUL character inside the list ends the string as
  well. \<^verbatim>\<open>char\<close> is a signed 8-bit type for avr-gcc, so \<^verbatim>\<open>*s\<close> is promoted to a
  signed \<^verbatim>\<open>int\<close> in the comparison and in the subtraction, and the difference is
  truncated to 8 bits by the assignment to \<^verbatim>\<open>uint8_t c\<close>.
\<close>

definition schar :: "char \<Rightarrow> int" where
  "schar ch = sint (of_char ch :: u8)"

text \<open>\<^verbatim>\<open>uint8_t c = (*s > '{') ? 0 : *s - 32;\<close> in \<^verbatim>\<open>text\<close>.\<close>

definition text_glyph :: "char \<Rightarrow> u8" where
  "text_glyph ch = (if schar ch > schar (CHR ''{'') then 0 else word_of_int (schar ch - 32))"

text \<open>\<^verbatim>\<open>uint8_t c = *s > '}' ? 0 : *s - 32;\<close> in \<open>text2x\<close>.\<close>

definition text2x_glyph :: "char \<Rightarrow> u8" where
  "text2x_glyph ch = (if schar ch > schar (CHR ''}'') then 0 else word_of_int (schar ch - 32))"

text \<open>
  The font tables, the pattern and the image are read through a pointer: they are
  modelled by the function from the index to the byte found there (the parameter
  \<^verbatim>\<open>image\<close> of \<open>drawImage\<close> is named \<open>img\<close>).
\<close>

type_synonym bytes = "nat \<Rightarrow> u8"

fun text_loop :: "bytes \<Rightarrow> u8 \<Rightarrow> string \<Rightarrow> display \<Rightarrow> display" where
  "text_loop font6x8 col [] s = s"
| "text_loop font6x8 col (ch # rest) s =
     (if of_char ch \<noteq> (0::u8) \<and> col \<le> NUM_COLUMNS - 6
      then text_loop font6x8 (col + 6) rest
             (fold (\<lambda>ix. ssd1306DataPutByte (font6x8 (unat (text_glyph ch) * 6 + ix))) [0..<6] s)
      else s)"

text \<open>The method \<^verbatim>\<open>text\<close> of the class, named \<open>text1x\<close> here.\<close>

definition text1x :: "bytes \<Rightarrow> u8 \<Rightarrow> u8 \<Rightarrow> string \<Rightarrow> display \<Rightarrow> display" where
  "text1x font6x8 row column str s =
     (if row > NUM_ROWS - 1 then s
      else ssd1306DataEnd (text_loop font6x8 column str (ssd1306DataBegin (setPosition row column s))))"

text \<open>
  The two loops of \<open>text2x\<close> differ only in the offset into the glyph (0 for the upper
  half, 8 for the lower half), which is the parameter \<open>half\<close>.
\<close>

fun text2x_loop :: "bytes \<Rightarrow> nat \<Rightarrow> u8 \<Rightarrow> string \<Rightarrow> display \<Rightarrow> display" where
  "text2x_loop font8x16 half col [] s = s"
| "text2x_loop font8x16 half col (ch # rest) s =
     (if of_char ch \<noteq> (0::u8) \<and> col \<le> NUM_COLUMNS - 8
      then text2x_loop font8x16 half (col + 8) rest
             (fold (\<lambda>ix. ssd1306DataPutByte (font8x16 (unat (text2x_glyph ch) * 16 + half + ix)))
                [0..<8] s)
      else s)"

definition text2x :: "bytes \<Rightarrow> u8 \<Rightarrow> u8 \<Rightarrow> string \<Rightarrow> display \<Rightarrow> display" where
  "text2x font8x16 row column str s =
     (if row > NUM_ROWS - 2 then s
      else ssd1306DataEnd (text2x_loop font8x16 8 column str (ssd1306DataBegin (setPosition (row + 1) column
            (ssd1306DataEnd (text2x_loop font8x16 0 column str (ssd1306DataBegin (setPosition row column s))))))))"

definition fillScreen :: "u8 \<Rightarrow> display \<Rightarrow> display" where
  "fillScreen fillByte s =
     fold (\<lambda>row s. ssd1306DataEnd
                     (fold (\<lambda>col. ssd1306DataPutByte fillByte) [0..<unat NUM_COLUMNS]
                        (ssd1306DataBegin (setPosition (of_nat row) 0 s))))
          [0..<unat NUM_ROWS] s"

text \<open>
  The loops over a rectangle compare \<^verbatim>\<open>row < startRow + rows\<close> and
  \<^verbatim>\<open>col < startColumn + columns\<close> after integer promotion, so the sums do not wrap.
\<close>

function fillAreaWithByte_cols :: "u8 \<Rightarrow> u8 \<Rightarrow> u8 \<Rightarrow> u8 \<Rightarrow> display \<Rightarrow> display" where
  "fillAreaWithByte_cols startColumn columns b col s =
     (if unat col < unat startColumn + unat columns \<and> col < NUM_COLUMNS
      then fillAreaWithByte_cols startColumn columns b (col + 1) (ssd1306DataPutByte b s)
      else s)"
  by pat_completeness auto
termination
proof (relation "measure (\<lambda>(startColumn, columns, b, col, s). 128 - unat col)")
  show "wf (measure (\<lambda>(startColumn, columns, b, col, s). 128 - unat col))" by simp
next
  fix startColumn columns b col :: u8 and s :: display
  assume "unat col < unat startColumn + unat columns \<and> col < NUM_COLUMNS"
  then have "unat col < 128" by (simp add: NUM_COLUMNS_def word_less_nat_alt)
  then have "unat (col + 1) = unat col + 1" by (simp add: unat_word_ariths)
  with \<open>unat col < 128\<close>
  show "((startColumn, columns, b, col + 1, ssd1306DataPutByte b s), (startColumn, columns, b, col, s))
          \<in> measure (\<lambda>(startColumn, columns, b, col, s). 128 - unat col)"
    by simp
qed

function fillAreaWithByte_rows :: "u8 \<Rightarrow> u8 \<Rightarrow> u8 \<Rightarrow> u8 \<Rightarrow> u8 \<Rightarrow> u8 \<Rightarrow> display \<Rightarrow> display" where
  "fillAreaWithByte_rows startRow startColumn rows columns b row s =
     (if unat row < unat startRow + unat rows \<and> row < NUM_ROWS
      then fillAreaWithByte_rows startRow startColumn rows columns b (row + 1)
             (ssd1306DataEnd (fillAreaWithByte_cols startColumn columns b startColumn
                (ssd1306DataBegin (setPosition row startColumn s))))
      else s)"
  by pat_completeness auto
termination
proof (relation "measure (\<lambda>(startRow, startColumn, rows, columns, b, row, s). 8 - unat row)")
  show "wf (measure (\<lambda>(startRow, startColumn, rows, columns, b, row, s). 8 - unat row))" by simp
next
  fix startRow startColumn rows columns b row :: u8 and s :: display
  assume "unat row < unat startRow + unat rows \<and> row < NUM_ROWS"
  then have "unat row < 8" by (simp add: NUM_ROWS_def word_less_nat_alt)
  then have "unat (row + 1) = unat row + 1" by (simp add: unat_word_ariths)
  with \<open>unat row < 8\<close>
  show "((startRow, startColumn, rows, columns, b, row + 1,
          ssd1306DataEnd (fillAreaWithByte_cols startColumn columns b startColumn
            (ssd1306DataBegin (setPosition row startColumn s)))),
         (startRow, startColumn, rows, columns, b, row, s))
          \<in> measure (\<lambda>(startRow, startColumn, rows, columns, b, row, s). 8 - unat row)"
    by simp
qed

declare fillAreaWithByte_cols.simps [simp del] fillAreaWithByte_rows.simps [simp del]

definition fillAreaWithByte :: "u8 \<Rightarrow> u8 \<Rightarrow> u8 \<Rightarrow> u8 \<Rightarrow> u8 \<Rightarrow> display \<Rightarrow> display" where
  "fillAreaWithByte startRow startColumn rows columns b s =
     fillAreaWithByte_rows startRow startColumn rows columns b startRow s"

text \<open>
  \<^verbatim>\<open>unsigned ix\<close> is 16 bits wide; it is reset on every row and incremented at most
  128 times in a row, so it is modelled by a natural number.
\<close>

function fillAreaWithBytes_cols ::
    "u8 \<Rightarrow> u8 \<Rightarrow> bytes \<Rightarrow> u8 \<Rightarrow> u8 \<Rightarrow> nat \<Rightarrow> display \<Rightarrow> display" where
  "fillAreaWithBytes_cols startColumn columns pattern patternSize col ix s =
     (if unat col < unat startColumn + unat columns \<and> col < NUM_COLUMNS
      then fillAreaWithBytes_cols startColumn columns pattern patternSize (col + 1)
             (if ix + 1 \<ge> unat patternSize then 0 else ix + 1)
             (ssd1306DataPutByte (pattern ix) s)
      else s)"
  by pat_completeness auto
termination
proof (relation "measure (\<lambda>(startColumn, columns, pattern, patternSize, col, ix, s). 128 - unat col)")
  show "wf (measure (\<lambda>(startColumn, columns, pattern, patternSize, col, ix, s). 128 - unat col))"
    by simp
next
  fix startColumn columns patternSize col :: u8 and pattern :: bytes and ix :: nat and s :: display
  assume "unat col < unat startColumn + unat columns \<and> col < NUM_COLUMNS"
  then have "unat col < 128" by (simp add: NUM_COLUMNS_def word_less_nat_alt)
  then have "unat (col + 1) = unat col + 1" by (simp add: unat_word_ariths)
  with \<open>unat col < 128\<close>
  show "((startColumn, columns, pattern, patternSize, col + 1,
          if unat patternSize \<le> ix + 1 then 0 else ix + 1, ssd1306DataPutByte (pattern ix) s),
         (startColumn, columns, pattern, patternSize, col, ix, s))
          \<in> measure (\<lambda>(startColumn, columns, pattern, patternSize, col, ix, s). 128 - unat col)"
    by simp
qed

function fillAreaWithBytes_rows ::
    "u8 \<Rightarrow> u8 \<Rightarrow> u8 \<Rightarrow> u8 \<Rightarrow> bytes \<Rightarrow> u8 \<Rightarrow> u8 \<Rightarrow> display \<Rightarrow> display" where
  "fillAreaWithBytes_rows startRow startColumn rows columns pattern patternSize row s =
     (if unat row < unat startRow + unat rows \<and> row < NUM_ROWS
      then fillAreaWithBytes_rows startRow startColumn rows columns pattern patternSize (row + 1)
             (ssd1306DataEnd (fillAreaWithBytes_cols startColumn columns pattern patternSize startColumn 0
                (ssd1306DataBegin (setPosition row startColumn s))))
      else s)"
  by pat_completeness auto
termination
proof (relation
    "measure (\<lambda>(startRow, startColumn, rows, columns, pattern, patternSize, row, s). 8 - unat row)")
  show "wf (measure
    (\<lambda>(startRow, startColumn, rows, columns, pattern, patternSize, row, s). 8 - unat row))"
    by simp
next
  fix startRow startColumn rows columns patternSize row :: u8 and pattern :: bytes and s :: display
  assume "unat row < unat startRow + unat rows \<and> row < NUM_ROWS"
  then have "unat row < 8" by (simp add: NUM_ROWS_def word_less_nat_alt)
  then have "unat (row + 1) = unat row + 1" by (simp add: unat_word_ariths)
  with \<open>unat row < 8\<close>
  show "((startRow, startColumn, rows, columns, pattern, patternSize, row + 1,
          ssd1306DataEnd (fillAreaWithBytes_cols startColumn columns pattern patternSize startColumn 0
            (ssd1306DataBegin (setPosition row startColumn s)))),
         (startRow, startColumn, rows, columns, pattern, patternSize, row, s))
          \<in> measure
            (\<lambda>(startRow, startColumn, rows, columns, pattern, patternSize, row, s). 8 - unat row)"
    by simp
qed

declare fillAreaWithBytes_cols.simps [simp del] fillAreaWithBytes_rows.simps [simp del]

definition fillAreaWithBytes ::
    "u8 \<Rightarrow> u8 \<Rightarrow> u8 \<Rightarrow> u8 \<Rightarrow> bytes \<Rightarrow> u8 \<Rightarrow> display \<Rightarrow> display" where
  "fillAreaWithBytes startRow startColumn rows columns pattern patternSize s =
     fillAreaWithBytes_rows startRow startColumn rows columns pattern patternSize startRow s"

function drawImage_cols :: "u8 \<Rightarrow> u8 \<Rightarrow> bytes \<Rightarrow> u8 \<Rightarrow> nat \<Rightarrow> display \<Rightarrow> display" where
  "drawImage_cols startColumn imageColumns img col ix s =
     (if unat col < unat startColumn + unat imageColumns \<and> col < NUM_COLUMNS
      then drawImage_cols startColumn imageColumns img (col + 1) (ix + 1)
             (ssd1306DataPutByte (img ix) s)
      else s)"
  by pat_completeness auto
termination
proof (relation "measure (\<lambda>(startColumn, imageColumns, img, col, ix, s). 128 - unat col)")
  show "wf (measure (\<lambda>(startColumn, imageColumns, img, col, ix, s). 128 - unat col))"
    by simp
next
  fix startColumn imageColumns col :: u8 and img :: bytes and ix :: nat and s :: display
  assume "unat col < unat startColumn + unat imageColumns \<and> col < NUM_COLUMNS"
  then have "unat col < 128" by (simp add: NUM_COLUMNS_def word_less_nat_alt)
  then have "unat (col + 1) = unat col + 1" by (simp add: unat_word_ariths)
  with \<open>unat col < 128\<close>
  show "((startColumn, imageColumns, img, col + 1, ix + 1, ssd1306DataPutByte (img ix) s),
         (startColumn, imageColumns, img, col, ix, s))
          \<in> measure (\<lambda>(startColumn, imageColumns, img, col, ix, s). 128 - unat col)"
    by simp
qed

text \<open>
  \<^verbatim>\<open>unsigned ix = (row - startRow) * imageColumns\<close>: \<open>row\<close> is never below
  \<open>startRow\<close> and the product is at most \<open>7 * 255\<close>.
\<close>

function drawImage_rows :: "u8 \<Rightarrow> u8 \<Rightarrow> u8 \<Rightarrow> u8 \<Rightarrow> bytes \<Rightarrow> u8 \<Rightarrow> display \<Rightarrow> display" where
  "drawImage_rows startRow startColumn imageRows imageColumns img row s =
     (if unat row < unat startRow + unat imageRows \<and> row < NUM_ROWS
      then drawImage_rows startRow startColumn imageRows imageColumns img (row + 1)
             (ssd1306DataEnd (drawImage_cols startColumn imageColumns img startColumn
                ((unat row - unat startRow) * unat imageColumns)
                (ssd1306DataBegin (setPosition row startColumn s))))
      else s)"
  by pat_completeness auto
termination
proof (relation
    "measure (\<lambda>(startRow, startColumn, imageRows, imageColumns, img, row, s). 8 - unat row)")
  show "wf (measure
    (\<lambda>(startRow, startColumn, imageRows, imageColumns, img, row, s). 8 - unat row))"
    by simp
next
  fix startRow startColumn imageRows imageColumns row :: u8 and img :: bytes and s :: display
  assume "unat row < unat startRow + unat imageRows \<and> row < NUM_ROWS"
  then have "unat row < 8" by (simp add: NUM_ROWS_def word_less_nat_alt)
  then have "unat (row + 1) = unat row + 1" by (simp add: unat_word_ariths)
  with \<open>unat row < 8\<close>
  show "((startRow, startColumn, imageRows, imageColumns, img, row + 1,
          ssd1306DataEnd (drawImage_cols startColumn imageColumns img startColumn
            ((unat row - unat startRow) * unat imageColumns)
            (ssd1306DataBegin (setPosition row startColumn s)))),
         (startRow, startColumn, imageRows, imageColumns, img, row, s))
          \<in> measure
            (\<lambda>(startRow, startColumn, imageRows, imageColumns, img, row, s). 8 - unat row)"
    by simp
qed

declare drawImage_cols.simps [simp del] drawImage_rows.simps [simp del]

definition drawImage :: "u8 \<Rightarrow> u8 \<Rightarrow> u8 \<Rightarrow> u8 \<Rightarrow> bytes \<Rightarrow> display \<Rightarrow> display" where
  "drawImage startRow startColumn imageRows imageColumns img s =
     drawImage_rows startRow startColumn imageRows imageColumns img startRow s"

definition setContrast :: "u8 \<Rightarrow> display \<Rightarrow> display" where
  "setContrast level s =
     ssd1306CmdEnd (i2cSendByte level (i2cSendByte CMD_SET_CONTRAST (ssd1306CmdBegin s)))"

definition invertScreen :: "bool \<Rightarrow> display \<Rightarrow> display" where
  "invertScreen b s = ssd1306SendCommand (if b then CMD_INVERT_ON else CMD_INVERT_OFF) s"

definition sleep :: "bool \<Rightarrow> display \<Rightarrow> display" where
  "sleep b s = ssd1306SendCommand (if b then CMD_DISPLAY_OFF else CMD_DISPLAY_ON) s"

section \<open>What the link carries\<close>

text \<open>
  The signalling of the specification, as sequences of line writes. A bit is the data
  line set to its value, then a clock pulse; a byte is its eight bits, most significant
  first, then the acknowledgement slot: the data line high and one more clock pulse.
\<close>

definition data_op :: "bool \<Rightarrow> line_op" where
  "data_op v = (if v then SdaHigh else SdaLow)"

definition bit_ops :: "bool \<Rightarrow> line_op list" where
  "bit_ops v = [data_op v, SclHigh, SclLow]"

definition byte_ops :: "u8 \<Rightarrow> line_op list" where
  "byte_ops b = concat (map (\<lambda>i. bit_ops (bit b i)) (rev [0..<8])) @ [SdaHigh, SclHigh, SclLow]"

definition start_ops :: "line_op list" where
  "start_ops = [SclHigh, SdaHigh, SdaLow, SclLow]"

definition stop_ops :: "line_op list" where
  "stop_ops = [SclLow, SdaLow, SclHigh, SdaHigh]"

text \<open>
  A frame: the start condition, the address byte, the control byte, the payload bytes and
  the stop condition. The control byte is 0x00 for commands and 0x40 for display data.
\<close>

definition frame_ops :: "u8 \<Rightarrow> u8 list \<Rightarrow> line_op list" where
  "frame_ops ctl payload =
     start_ops @ byte_ops 0x78 @ byte_ops ctl @ concat (map byte_ops payload) @ stop_ops"

definition command_frame :: "u8 list \<Rightarrow> line_op list" where
  "command_frame payload = frame_ops 0x00 payload"

definition data_frame :: "u8 list \<Rightarrow> line_op list" where
  "data_frame payload = frame_ops 0x40 payload"

text \<open>
  The position command for a row and a column: the page select, the high nibble and the
  low nibble of the column.
\<close>

definition position_frame :: "u8 \<Rightarrow> u8 \<Rightarrow> line_op list" where
  "position_frame row column =
     command_frame [0xB0 OR row, 0x10 OR drop_bit 4 column, 0x00 OR take_bit 4 column]"

text \<open>The clock is low at every write to the data line, when it starts at level \<open>scl\<close>.\<close>

fun data_changes_while_clock_low :: "bool \<Rightarrow> line_op list \<Rightarrow> bool" where
  "data_changes_while_clock_low scl [] = True"
| "data_changes_while_clock_low scl (SclHigh # ops) = data_changes_while_clock_low True ops"
| "data_changes_while_clock_low scl (SclLow # ops) = data_changes_while_clock_low False ops"
| "data_changes_while_clock_low scl (SdaHigh # ops) = (\<not> scl \<and> data_changes_while_clock_low scl ops)"
| "data_changes_while_clock_low scl (SdaLow # ops) = (\<not> scl \<and> data_changes_while_clock_low scl ops)"

text \<open>A payload byte as \<open>ssd1306DataPutByte\<close> hands it to the link, under the data-invert flag.\<close>

definition transmitted :: "bool \<Rightarrow> u8 \<Rightarrow> u8" where
  "transmitted invert b = (if invert then NOT b else b)"

text \<open>One pass of the loop of \<open>i2cSendByte\<close>, for a bit of value \<open>v\<close>.\<close>

definition send_bit :: "bool \<Rightarrow> display \<Rightarrow> display" where
  "send_bit v s = SCL_low (SCL_high ((if v then SDA_high else SDA_low) s))"

text \<open>The line writes for a run of payload bytes under the data-invert flag.\<close>

definition payload_ops :: "bool \<Rightarrow> u8 list \<Rightarrow> line_op list" where
  "payload_ops invert bs = concat (map (\<lambda>b. byte_ops (transmitted invert b)) bs)"

text \<open>Number of columns a column loop visits from \<open>col\<close>.\<close>

definition cols_left :: "u8 \<Rightarrow> u8 \<Rightarrow> u8 \<Rightarrow> nat" where
  "cols_left startColumn columns col = min (unat startColumn + unat columns) 128 - unat col"

text \<open>
  What one row of a drawing operation puts on the link: the position command (absent when
  the column is off the screen) and then one data frame with the bytes of the row.
\<close>

definition row_frames :: "bool \<Rightarrow> u8 \<Rightarrow> u8 \<Rightarrow> u8 list \<Rightarrow> line_op list" where
  "row_frames invert row column bs =
     (if column < 128 then position_frame row column else []) @
     data_frame (map (transmitted invert) bs)"

text \<open>The rows a row loop visits: from the start row, clipped to the 8 rows of the screen.\<close>

definition rows_visited :: "u8 \<Rightarrow> u8 \<Rightarrow> nat list" where
  "rows_visited startRow rows = [unat startRow..<min (unat startRow + unat rows) 8]"

text \<open>
  The characters of a string that are drawn from column \<open>c\<close> with glyphs \<open>w\<close> columns
  wide: the string up to its end, while a full glyph still fits on the 128 columns.
\<close>

fun drawn_chars :: "nat \<Rightarrow> nat \<Rightarrow> string \<Rightarrow> string" where
  "drawn_chars w c [] = []"
| "drawn_chars w c (ch # rest) =
     (if of_char ch \<noteq> (0::u8) \<and> c + w \<le> 128 then ch # drawn_chars w (c + w) rest else [])"

text \<open>The bytes of a glyph in the 6-byte font, and of a half glyph in the 16-byte font.\<close>

definition glyph6 :: "bytes \<Rightarrow> char \<Rightarrow> u8 list" where
  "glyph6 font6x8 ch = map (\<lambda>ix. font6x8 (unat (text_glyph ch) * 6 + ix)) [0..<6]"

definition glyph16 :: "bytes \<Rightarrow> nat \<Rightarrow> char \<Rightarrow> u8 list" where
  "glyph16 font8x16 half ch = map (\<lambda>ix. font8x16 (unat (text2x_glyph ch) * 16 + half + ix)) [0..<8]"

text \<open>
  A display after construction with both lines driven high and both pins configured as
  outputs, and two tables for concrete runs: a font whose byte at index \<open>i\<close> is \<open>i\<close>
  modulo 256, and an image of zero bytes.
\<close>

definition idle_display :: display where
  "idle_display = SSD1306Display 0x30 0x30"

definition ramp_font :: bytes where
  "ramp_font i = of_nat i"

definition blank_image :: bytes where
  "blank_image i = 0"

text \<open>
  The frames of an image blit as the specification describes them: for every image row
  \<open>i\<close>, one position command for display row \<open>startRow + i\<close> at the start column and
  one data frame with the bytes \<open>img (i * imageColumns + j)\<close> of that row.
\<close>

definition image_frames :: "u8 \<Rightarrow> u8 \<Rightarrow> u8 \<Rightarrow> u8 \<Rightarrow> bytes \<Rightarrow> line_op list" where
  "image_frames startRow startColumn imageRows imageColumns img =
     concat (map (\<lambda>i. position_frame (startRow + of_nat i) startColumn @
                        data_frame (map (\<lambda>j. img (i * unat imageColumns + j)) [0..<unat imageColumns]))
                 [0..<unat imageRows])"

text \<open>
  A frame as a value: a command frame or a data frame with its payload. \<open>whole_frames\<close>
  is the sequence of line writes of a list of frames, each one complete from its start
  condition to its stop condition.
\<close>

datatype frame = Command "u8 list" | Data "u8 list"

fun one_frame :: "frame \<Rightarrow> line_op list" where
  "one_frame (Command payload) = command_frame payload"
| "one_frame (Data payload) = data_frame payload"

definition whole_frames :: "frame list \<Rightarrow> line_op list" where
  "whole_frames fs = concat (map one_frame fs)"

text \<open>The payload of the position command, and the frames of one row as a list.\<close>

definition position_bytes :: "u8 \<Rightarrow> u8 \<Rightarrow> u8 list" where
  "position_bytes row column = [0xB0 OR row, 0x10 OR drop_bit 4 column, 0x00 OR take_bit 4 column]"

definition row_frame_list :: "bool \<Rightarrow> u8 \<Rightarrow> u8 \<Rightarrow> u8 list \<Rightarrow> frame list" where
  "row_frame_list invert row column bs =
     (if column < 128 then [Command (position_bytes row column)] else []) @
     [Data (map (transmitted invert) bs)]"

section \<open>Line writes of the transmitter and of the frames\<close>

lemma rev8: "rev [0..<8] = [7,6,5,4,3,2,1,0::nat]"
  by (simp add: upt_rec)

lemma msk_bit:
  "(b AND (0x80::u8) \<noteq> 0) = bit b 7"
  "(b AND (0x40::u8) \<noteq> 0) = bit b 6"
  "(b AND (0x20::u8) \<noteq> 0) = bit b 5"
  "(b AND (0x10::u8) \<noteq> 0) = bit b 4"
  "(b AND (0x08::u8) \<noteq> 0) = bit b 3"
  "(b AND (0x04::u8) \<noteq> 0) = bit b 2"
  "(b AND (0x02::u8) \<noteq> 0) = bit b 1"
  "(b AND (0x01::u8) \<noteq> 0) = bit b 0"
  using bit_iff_and_push_bit_not_eq_0 [of b 7] bit_iff_and_push_bit_not_eq_0 [of b 6]
   bit_iff_and_push_bit_not_eq_0 [of b 5] bit_iff_and_push_bit_not_eq_0 [of b 4]
   bit_iff_and_push_bit_not_eq_0 [of b 3] bit_iff_and_push_bit_not_eq_0 [of b 2]
   bit_iff_and_push_bit_not_eq_0 [of b 1] bit_iff_and_push_bit_not_eq_0 [of b 0]
  by simp_all

lemma msk_shift:
  "drop_bit 1 (0x80::u8) = 0x40"
  "drop_bit 1 (0x40::u8) = 0x20"
  "drop_bit 1 (0x20::u8) = 0x10"
  "drop_bit 1 (0x10::u8) = 0x08"
  "drop_bit 1 (0x08::u8) = 0x04"
  "drop_bit 1 (0x04::u8) = 0x02"
  "drop_bit 1 (0x02::u8) = 0x01"
  "drop_bit 1 (0x01::u8) = 0"
  by simp_all

lemma wire_pin [simp]:
  "wire (SCL_high s) = wire s @ [SclHigh]"
  "wire (SCL_low s) = wire s @ [SclLow]"
  "wire (SDA_high s) = wire s @ [SdaHigh]"
  "wire (SDA_low s) = wire s @ [SdaLow]"
  by (simp_all add: SCL_high_def SCL_low_def SDA_high_def SDA_low_def)

lemma inv_pin [simp]:
  "fInvertData (SCL_high s) = fInvertData s"
  "fInvertData (SCL_low s) = fInvertData s"
  "fInvertData (SDA_high s) = fInvertData s"
  "fInvertData (SDA_low s) = fInvertData s"
  by (simp_all add: SCL_high_def SCL_low_def SDA_high_def SDA_low_def)

lemma wire_send_bit [simp]: "wire (send_bit v s) = wire s @ bit_ops v"
  by (simp add: send_bit_def bit_ops_def data_op_def)

lemma i2cSendByte_loop_unrolled:
  "i2cSendByte_loop b 0x80 s =
     send_bit (bit b 0) (send_bit (bit b 1) (send_bit (bit b 2) (send_bit (bit b 3)
       (send_bit (bit b 4) (send_bit (bit b 5) (send_bit (bit b 6) (send_bit (bit b 7) s)))))))"
  unfolding send_bit_def
  apply (subst i2cSendByte_loop.simps, simp only: msk_shift msk_bit)+
  apply (subst i2cSendByte_loop.simps)
  apply (simp split del: if_split)
  done

lemma wire_i2cSendByte_loop:
  "wire (i2cSendByte_loop b 0x80 s) = wire s @ concat (map (\<lambda>i. bit_ops (bit b i)) (rev [0..<8]))"
  by (simp add: i2cSendByte_loop_unrolled rev8)

lemma inv_i2cSendByte_loop: "fInvertData (i2cSendByte_loop b msk s) = fInvertData s"
proof (induction b msk s rule: i2cSendByte_loop.induct)
  case (1 b msk s)
  then show ?case
    by (subst i2cSendByte_loop.simps) simp
qed

lemma wire_i2cSendByte [simp]: "wire (i2cSendByte b s) = wire s @ byte_ops b"
  by (simp add: i2cSendByte_def wire_i2cSendByte_loop byte_ops_def)

lemma inv_i2cSendByte [simp]: "fInvertData (i2cSendByte b s) = fInvertData s"
  by (simp add: i2cSendByte_def inv_i2cSendByte_loop)

lemma wire_i2cSendBegin [simp]: "wire (i2cSendBegin s) = wire s @ start_ops"
  by (simp add: i2cSendBegin_def start_ops_def)

lemma wire_i2cSendEnd [simp]: "wire (i2cSendEnd s) = wire s @ stop_ops"
  by (simp add: i2cSendEnd_def stop_ops_def)

lemma inv_i2cSendBegin [simp]: "fInvertData (i2cSendBegin s) = fInvertData s"
  by (simp add: i2cSendBegin_def)

lemma inv_i2cSendEnd [simp]: "fInvertData (i2cSendEnd s) = fInvertData s"
  by (simp add: i2cSendEnd_def)

lemma lines_idle_i2cSendEnd [simp]: "lines_idle (i2cSendEnd s)"
  by (simp add: lines_idle_def clock_level_def data_level_def i2cSendEnd_def SCL_high_def SCL_low_def
      SDA_high_def SDA_low_def SCL_PIN_def SDA_PIN_def bit_simps)

lemma wire_fold_i2cSendByte:
  "wire (fold i2cSendByte bs s) = wire s @ concat (map byte_ops bs)"
  by (induction bs arbitrary: s) simp_all

lemma inv_fold_i2cSendByte [simp]:
  "fInvertData (fold i2cSendByte bs s) = fInvertData s"
  by (induction bs arbitrary: s) simp_all

lemma wire_ssd1306DataBegin:
  "wire (ssd1306DataBegin s) = wire s @ start_ops @ byte_ops 0x78 @ byte_ops 0x40"
  by (simp add: ssd1306DataBegin_def SSD1306_ADDR_def SSD1306_CTL_DATA_def)

lemma wire_ssd1306CmdBegin:
  "wire (ssd1306CmdBegin s) = wire s @ start_ops @ byte_ops 0x78 @ byte_ops 0x00"
  by (simp add: ssd1306CmdBegin_def SSD1306_ADDR_def SSD1306_CTL_COMMAND_def)

lemma inv_frames [simp]:
  "fInvertData (ssd1306DataBegin s) = fInvertData s"
  "fInvertData (ssd1306CmdBegin s) = fInvertData s"
  "fInvertData (ssd1306DataEnd s) = fInvertData s"
  "fInvertData (ssd1306CmdEnd s) = fInvertData s"
  "fInvertData (ssd1306DataPutByte b s) = fInvertData s"
  by (simp_all add: ssd1306DataBegin_def ssd1306CmdBegin_def ssd1306DataEnd_def ssd1306CmdEnd_def
      ssd1306DataPutByte_def)

lemma wire_ssd1306DataPutByte:
  "wire (ssd1306DataPutByte b s) = wire s @ byte_ops (transmitted (fInvertData s) b)"
  by (simp add: ssd1306DataPutByte_def transmitted_def)

lemma wire_ssd1306End [simp]:
  "wire (ssd1306DataEnd s) = wire s @ stop_ops"
  "wire (ssd1306CmdEnd s) = wire s @ stop_ops"
  by (simp_all add: ssd1306DataEnd_def ssd1306CmdEnd_def)

lemma lines_idle_End [simp]:
  "lines_idle (ssd1306DataEnd s)" "lines_idle (ssd1306CmdEnd s)"
  by (simp_all add: ssd1306DataEnd_def ssd1306CmdEnd_def)

lemma low_nibble: "(x :: u8) AND 0x0f = take_bit 4 x"
  by (simp add: take_bit_eq_mask mask_eq_exp_minus_1)

lemma high_nibble: "take_bit 4 (drop_bit 4 (column :: u8)) = drop_bit 4 column"
  by (rule bit_word_eqI) (auto simp add: bit_simps dest: bit_imp_le_length)

lemma wire_setPosition:
  "wire (setPosition row column s) =
     wire s @ (if row < 8 \<and> column < 128 then position_frame row column else [])"
proof (cases "row < 8 \<and> column < 128")
  case True
  then have "\<not> (row \<ge> NUM_ROWS \<or> column \<ge> NUM_COLUMNS)"
    by (simp add: NUM_ROWS_def NUM_COLUMNS_def not_le)
  with True show ?thesis
    by (simp add: setPosition_def wire_ssd1306CmdBegin position_frame_def
      command_frame_def frame_ops_def CMD_SET_ROW_def CMD_SET_COLUMN_HI_def CMD_SET_COLUMN_LO_def
      high_nibble low_nibble)
next
  case False
  then have "row \<ge> NUM_ROWS \<or> column \<ge> NUM_COLUMNS"
    by (auto simp add: NUM_ROWS_def NUM_COLUMNS_def not_less)
  with False show ?thesis
    by (auto simp add: setPosition_def)
qed

lemma inv_setPosition [simp]: "fInvertData (setPosition row column s) = fInvertData s"
  by (simp add: setPosition_def)

lemma lines_idle_setPosition: "lines_idle s \<Longrightarrow> lines_idle (setPosition row column s)"
  by (simp add: setPosition_def)

lemma level_pin [simp]:
  "clock_level (SCL_high s)" "\<not> clock_level (SCL_low s)"
  "clock_level (SDA_high s) = clock_level s" "clock_level (SDA_low s) = clock_level s"
  "data_level (SDA_high s)" "\<not> data_level (SDA_low s)"
  "data_level (SCL_high s) = data_level s" "data_level (SCL_low s) = data_level s"
  by (simp_all add: clock_level_def data_level_def SCL_high_def SCL_low_def SDA_high_def SDA_low_def
      SCL_PIN_def SDA_PIN_def bit_simps)

lemma level_i2cSendByte [simp]:
  "\<not> clock_level (i2cSendByte b s)" "data_level (i2cSendByte b s)"
  by (simp_all add: i2cSendByte_def)

lemma byte_ops_unfolded:
  "byte_ops b =
     [data_op (bit b 7), SclHigh, SclLow, data_op (bit b 6), SclHigh, SclLow,
      data_op (bit b 5), SclHigh, SclLow, data_op (bit b 4), SclHigh, SclLow,
      data_op (bit b 3), SclHigh, SclLow, data_op (bit b 2), SclHigh, SclLow,
      data_op (bit b 1), SclHigh, SclLow, data_op (bit b 0), SclHigh, SclLow,
      SdaHigh, SclHigh, SclLow]"
  by (simp add: byte_ops_def rev8 bit_ops_def)

lemma data_changes_data_op [simp]:
  "data_changes_while_clock_low scl (data_op v # ops) =
     (\<not> scl \<and> data_changes_while_clock_low scl ops)"
  by (simp add: data_op_def)

lemma payload_ops_simps [simp]:
  "payload_ops invert [] = []"
  "payload_ops invert (b # bs) = byte_ops (transmitted invert b) @ payload_ops invert bs"
  "payload_ops invert (bs @ cs) = payload_ops invert bs @ payload_ops invert cs"
  by (simp_all add: payload_ops_def)

lemma unat_succ: "unat (w :: u8) < 128 \<Longrightarrow> unat (w + 1) = unat w + 1"
  by (simp add: unat_word_ariths)

lemma col_lt: "((col :: u8) < NUM_COLUMNS) = (unat col < 128)"
  by (simp add: NUM_COLUMNS_def word_less_nat_alt)

lemma row_lt: "((row :: u8) < NUM_ROWS) = (unat row < 8)"
  by (simp add: NUM_ROWS_def word_less_nat_alt)

lemma wire_fold_put:
  "wire (fold (\<lambda>ix. ssd1306DataPutByte (f ix)) xs s) = wire s @ payload_ops (fInvertData s) (map f xs)"
  by (induction xs arbitrary: s) (simp_all add: wire_ssd1306DataPutByte)

lemma inv_fold_put [simp]:
  "fInvertData (fold (\<lambda>ix. ssd1306DataPutByte (f ix)) xs s) = fInvertData s"
  by (induction xs arbitrary: s) simp_all

lemma cols_left_step:
  "unat col < unat startColumn + unat columns \<Longrightarrow> unat col < 128 \<Longrightarrow>
    cols_left startColumn columns col = Suc (cols_left startColumn columns (col + 1))"
  by (simp add: cols_left_def unat_succ) 

lemma cols_left_stop:
  "\<not> (unat col < unat startColumn + unat columns \<and> unat col < 128) \<Longrightarrow>
    cols_left startColumn columns col = 0"
  by (auto simp add: cols_left_def)

lemma inv_fillAreaWithByte_cols [simp]:
  "fInvertData (fillAreaWithByte_cols startColumn columns b col s) = fInvertData s"
proof (induction startColumn columns b col s rule: fillAreaWithByte_cols.induct)
  case (1 startColumn columns b col s)
  then show ?case by (subst fillAreaWithByte_cols.simps) simp
qed

lemma wire_fillAreaWithByte_cols:
  "wire (fillAreaWithByte_cols startColumn columns b col s) =
     wire s @ payload_ops (fInvertData s) (replicate (cols_left startColumn columns col) b)"
proof (induction startColumn columns b col s rule: fillAreaWithByte_cols.induct)
  case (1 startColumn columns b col s)
  show ?case
  proof (cases "unat col < unat startColumn + unat columns \<and> col < NUM_COLUMNS")
    case True
    then have n: "cols_left startColumn columns col = Suc (cols_left startColumn columns (col + 1))"
      by (simp add: col_lt cols_left_step)
    from True 1 show ?thesis
      by (subst fillAreaWithByte_cols.simps) (simp add: n wire_ssd1306DataPutByte)
  next
    case False
    then have "cols_left startColumn columns col = 0"
      by (simp add: col_lt cols_left_stop)
    with False show ?thesis
      by (subst fillAreaWithByte_cols.simps) auto
  qed
qed

lemma inv_drawImage_cols [simp]:
  "fInvertData (drawImage_cols startColumn imageColumns img col ix s) = fInvertData s"
proof (induction startColumn imageColumns img col ix s rule: drawImage_cols.induct)
  case (1 startColumn imageColumns img col ix s)
  then show ?case by (subst drawImage_cols.simps) simp
qed

lemma map_upt_shift: "map (\<lambda>k. f (ix + k)) [0..<Suc n] = f ix # map (\<lambda>k. f (Suc ix + k)) [0..<n]"
  by (simp add: upt_rec[of 0] map_Suc_upt[symmetric] del: upt_Suc)

lemma wire_drawImage_cols:
  "wire (drawImage_cols startColumn imageColumns img col ix s) =
     wire s @ payload_ops (fInvertData s)
       (map (\<lambda>k. img (ix + k)) [0..<cols_left startColumn imageColumns col])"
proof (induction startColumn imageColumns img col ix s rule: drawImage_cols.induct)
  case (1 startColumn imageColumns img col ix s)
  show ?case
  proof (cases "unat col < unat startColumn + unat imageColumns \<and> col < NUM_COLUMNS")
    case True
    then have n: "cols_left startColumn imageColumns col = Suc (cols_left startColumn imageColumns (col + 1))"
      by (simp add: col_lt cols_left_step)
    from True 1 show ?thesis
      by (subst drawImage_cols.simps) (simp add: n wire_ssd1306DataPutByte map_upt_shift del: upt_Suc)
  next
    case False
    then have "cols_left startColumn imageColumns col = 0"
      by (simp add: col_lt cols_left_stop)
    with False show ?thesis
      by (subst drawImage_cols.simps) auto
  qed
qed

lemma payload_ops_map: "payload_ops invert bs = concat (map byte_ops (map (transmitted invert) bs))"
  by (simp add: payload_ops_def comp_def)

lemma inv_fillAreaWithBytes_cols [simp]:
  "fInvertData (fillAreaWithBytes_cols startColumn columns pattern patternSize col ix s) = fInvertData s"
proof (induction startColumn columns pattern patternSize col ix s rule: fillAreaWithBytes_cols.induct)
  case (1 startColumn columns pattern patternSize col ix s)
  then show ?case by (subst fillAreaWithBytes_cols.simps) simp
qed

lemma pattern_next:
  assumes "ix < max n 1"
  shows "((if ix + 1 \<ge> n then 0 else ix + 1) + k) mod max n 1 = (Suc ix + k) mod max n (1::nat)"
proof (cases "ix + 1 \<ge> n")
  case True
  with assms have "n = 0 \<and> ix = 0 \<or> Suc ix = n" by (auto simp add: max_def split: if_splits)
  then show ?thesis
  proof
    assume "n = 0 \<and> ix = 0"
    then show ?thesis by simp
  next
    assume n: "Suc ix = n"
    have "(Suc ix + k) mod Suc ix = k mod Suc ix" by (rule mod_add_self1)
    with n True show ?thesis by auto
  qed
next
  case False
  then show ?thesis by simp
qed

lemma pattern_next_lt: "(if ix + 1 \<ge> n then 0 else ix + 1) < max n (1::nat)"
  by auto

lemma wire_fillAreaWithBytes_cols:
  "ix < max (unat patternSize) 1 \<Longrightarrow>
   wire (fillAreaWithBytes_cols startColumn columns pattern patternSize col ix s) =
     wire s @ payload_ops (fInvertData s)
       (map (\<lambda>k. pattern ((ix + k) mod max (unat patternSize) 1)) [0..<cols_left startColumn columns col])"
proof (induction startColumn columns pattern patternSize col ix s rule: fillAreaWithBytes_cols.induct)
  case (1 startColumn columns pattern patternSize col ix s)
  let ?n = "unat patternSize"
  show ?case
  proof (cases "unat col < unat startColumn + unat columns \<and> col < NUM_COLUMNS")
    case True
    then have n: "cols_left startColumn columns col = Suc (cols_left startColumn columns (col + 1))"
      by (simp add: col_lt cols_left_step)
    have ix: "ix mod max ?n 1 = ix" using "1.prems" by simp
    have IH: "wire (fillAreaWithBytes_cols startColumn columns pattern patternSize (col + 1)
             (if ix + 1 \<ge> ?n then 0 else ix + 1) (ssd1306DataPutByte (pattern ix) s)) =
           wire (ssd1306DataPutByte (pattern ix) s) @ payload_ops (fInvertData s)
             (map (\<lambda>k. pattern ((Suc ix + k) mod max ?n 1)) [0..<cols_left startColumn columns (col + 1)])"
      using "1.IH"[OF True pattern_next_lt] pattern_next[OF "1.prems"] by simp
    have m: "map (\<lambda>k. pattern ((ix + k) mod max ?n 1)) [0..<Suc (cols_left startColumn columns (col + 1))] =
       pattern ix # map (\<lambda>k. pattern ((Suc ix + k) mod max ?n 1)) [0..<cols_left startColumn columns (col + 1)]"
      using map_upt_shift[of "\<lambda>i. pattern (i mod max ?n 1)" ix] ix by simp
    show ?thesis
      apply (subst fillAreaWithBytes_cols.simps)
      apply (subst if_P[OF True])
      apply (simp only: IH n m)
      apply (simp add: wire_ssd1306DataPutByte)
      done
  next
    case False
    then have "cols_left startColumn columns col = 0"
      by (simp add: col_lt cols_left_stop)
    with False show ?thesis
      by (subst fillAreaWithBytes_cols.simps) auto
  qed
qed

text \<open>The three row loops have the same shape.\<close>

lemma rows_loop_wire:
  fixes L :: "u8 \<Rightarrow> display \<Rightarrow> display"
  assumes eq: "\<And>row s. L row s =
      (if unat row < lim \<and> row < NUM_ROWS then L (row + 1) (body row s) else s)"
    and body: "\<And>row s. wire (body row s) = wire s @ out (fInvertData s) row"
    and inv: "\<And>row s. fInvertData (body row s) = fInvertData s"
  shows "wire (L row s) =
    wire s @ concat (map (\<lambda>r. out (fInvertData s) (of_nat r)) [unat row..<min lim 8])"
proof (induction "8 - unat row" arbitrary: row s)
  case 0
  then have c: "\<not> (unat row < lim \<and> row < NUM_ROWS)" by (simp add: row_lt)
  from 0 have "min lim 8 \<le> unat row" by simp
  then show ?case by (subst eq, subst if_not_P[OF c]) simp
next
  case (Suc n)
  then have lt: "unat row < 8" by simp
  show ?case
  proof (cases "unat row < lim")
    case True
    from lt have u: "unat (row + 1) = unat row + 1" by (simp add: unat_succ)
    with Suc have "n = 8 - unat (row + 1)" by simp
    from Suc.hyps(1)[OF this, of "body row s"]
    have IH: "wire (L (row + 1) (body row s)) = wire s @ out (fInvertData s) row @
        concat (map (\<lambda>r. out (fInvertData s) (of_nat r)) [Suc (unat row)..<min lim 8])"
      by (simp add: body inv u)
    from True lt have "[unat row..<min lim 8] = unat row # [Suc (unat row)..<min lim 8]"
      by (simp add: upt_conv_Cons)
    moreover from True lt have c: "unat row < lim \<and> row < NUM_ROWS" by (simp add: row_lt)
    ultimately show ?thesis using IH
      by (subst eq, subst if_P[OF c]) simp
  next
    case False
    then have "min lim 8 \<le> unat row" by simp
    moreover from False have c: "\<not> (unat row < lim \<and> row < NUM_ROWS)" by simp
    ultimately show ?thesis by (subst eq, subst if_not_P[OF c]) simp
  qed
qed

lemma rows_loop_inv:
  fixes L :: "u8 \<Rightarrow> display \<Rightarrow> display"
  assumes eq: "\<And>row s. L row s =
      (if unat row < lim \<and> row < NUM_ROWS then L (row + 1) (body row s) else s)"
    and inv: "\<And>row s. fInvertData (body row s) = fInvertData s"
  shows "fInvertData (L row s) = fInvertData s"
proof (induction "8 - unat row" arbitrary: row s)
  case 0
  then have c: "\<not> (unat row < lim \<and> row < NUM_ROWS)" by (simp add: row_lt)
  show ?case by (subst eq, subst if_not_P[OF c]) simp
next
  case (Suc n)
  then have lt: "unat row < 8" by simp
  then have u: "unat (row + 1) = unat row + 1" by (simp add: unat_succ)
  with Suc have "n = 8 - unat (row + 1)" by simp
  from Suc.hyps(1)[OF this, of "body row s"]
  have "fInvertData (L (row + 1) (body row s)) = fInvertData s" by (simp add: inv)
  then show ?case
    by (subst eq) (simp split: if_split)
qed

lemma rows_loop_idle:
  fixes L :: "u8 \<Rightarrow> display \<Rightarrow> display"
  assumes eq: "\<And>row s. L row s =
      (if unat row < lim \<and> row < NUM_ROWS then L (row + 1) (body row s) else s)"
    and idle: "\<And>row s. lines_idle (body row s)"
    and start: "lines_idle s"
  shows "lines_idle (L row s)"
  using start
proof (induction "8 - unat row" arbitrary: row s)
  case 0
  then have c: "\<not> (unat row < lim \<and> row < NUM_ROWS)" by (simp add: row_lt)
  from 0 show ?case by (subst eq, subst if_not_P[OF c]) simp
next
  case (Suc n)
  then have lt: "unat row < 8" by simp
  then have u: "unat (row + 1) = unat row + 1" by (simp add: unat_succ)
  with Suc have "n = 8 - unat (row + 1)" by simp
  from Suc.hyps(1)[OF this, of "body row s"]
  have "lines_idle (L (row + 1) (body row s))" by (simp add: idle)
  with Suc.prems show ?case
    by (subst eq) (simp split: if_split)
qed

lemma of_nat_row_lt: "r < 8 \<Longrightarrow> (of_nat r :: u8) < 8"
  by (simp add: word_less_nat_alt unat_of_nat)

lemma row_body_frames:
  "row < 8 \<Longrightarrow>
   (if row < 8 \<and> column < 128 then position_frame row column else []) @
     start_ops @ byte_ops 0x78 @ byte_ops 0x40 @ payload_ops invert bs @ stop_ops =
   row_frames invert row column bs"
  by (simp add: row_frames_def data_frame_def frame_ops_def payload_ops_map)

lemma col6: "(col \<le> NUM_COLUMNS - 6) = (unat col + 6 \<le> 128)"
  by (simp add: NUM_COLUMNS_def word_le_nat_alt)

lemma col8: "(col \<le> NUM_COLUMNS - 8) = (unat col + 8 \<le> 128)"
  by (simp add: NUM_COLUMNS_def word_le_nat_alt)

lemma unat_add6: "unat (col :: u8) + 6 \<le> 128 \<Longrightarrow> unat (col + 6) = unat col + 6"
  by (simp add: unat_word_ariths)

lemma unat_add8: "unat (col :: u8) + 8 \<le> 128 \<Longrightarrow> unat (col + 8) = unat col + 8"
  by (simp add: unat_word_ariths)

lemma inv_text_loop [simp]: "fInvertData (text_loop font6x8 col str s) = fInvertData s"
  by (induction str arbitrary: col s) simp_all

lemma inv_text2x_loop [simp]: "fInvertData (text2x_loop font8x16 half col str s) = fInvertData s"
  by (induction str arbitrary: col s) simp_all

lemma wire_text_loop:
  "wire (text_loop font6x8 col str s) =
     wire s @ payload_ops (fInvertData s) (concat (map (glyph6 font6x8) (drawn_chars 6 (unat col) str)))"
proof (induction str arbitrary: col s)
  case Nil
  then show ?case by simp
next
  case (Cons ch rest)
  show ?case
  proof (cases "of_char ch \<noteq> (0::u8) \<and> col \<le> NUM_COLUMNS - 6")
    case True
    then have "unat (col + 6) = unat col + 6" by (simp add: col6 unat_add6)
    with True Cons[of "col + 6"] show ?thesis
      by (simp add: col6 wire_fold_put glyph6_def)
  next
    case False
    then show ?thesis by (auto simp add: col6)
  qed
qed

lemma wire_text2x_loop:
  "wire (text2x_loop font8x16 half col str s) =
     wire s @ payload_ops (fInvertData s)
       (concat (map (glyph16 font8x16 half) (drawn_chars 8 (unat col) str)))"
proof (induction str arbitrary: col s)
  case Nil
  then show ?case by simp
next
  case (Cons ch rest)
  show ?case
  proof (cases "of_char ch \<noteq> (0::u8) \<and> col \<le> NUM_COLUMNS - 8")
    case True
    then have "unat (col + 8) = unat col + 8" by (simp add: col8 unat_add8)
    with True Cons[of "col + 8"] show ?thesis
      by (simp add: col8 wire_fold_put glyph16_def)
  next
    case False
    then show ?thesis by (auto simp add: col8)
  qed
qed

lemma wire_text1x:
  "wire (text1x font6x8 row column str s) = wire s @
     (if row < 8
      then row_frames (fInvertData s) row column
             (concat (map (glyph6 font6x8) (drawn_chars 6 (unat column) str)))
      else [])"
proof (cases "row < 8")
  case True
  then have "\<not> row > NUM_ROWS - 1" by (simp add: NUM_ROWS_def word_less_nat_alt)
  with True show ?thesis
    by (simp add: text1x_def wire_text_loop wire_ssd1306DataBegin wire_setPosition
        row_body_frames[OF True, symmetric])
next
  case False
  then have "row > NUM_ROWS - 1" by (simp add: NUM_ROWS_def word_less_nat_alt not_less word_le_nat_alt)
  with False show ?thesis by (simp add: text1x_def)
qed

lemma row_succ: "\<not> (row :: u8) > NUM_ROWS - 2 \<Longrightarrow> row < 8 \<and> row + 1 < 8"
  by (simp add: NUM_ROWS_def word_less_nat_alt unat_word_ariths)

lemma wire_text2x:
  "wire (text2x font8x16 row column str s) = wire s @
     (if row < 7
      then row_frames (fInvertData s) row column
             (concat (map (glyph16 font8x16 0) (drawn_chars 8 (unat column) str))) @
           row_frames (fInvertData s) (row + 1) column
             (concat (map (glyph16 font8x16 8) (drawn_chars 8 (unat column) str)))
      else [])"
proof (cases "row < 7")
  case True
  then have c: "\<not> row > NUM_ROWS - 2" by (simp add: NUM_ROWS_def word_less_nat_alt)
  from row_succ[OF c] have r: "row < 8" and r1: "row + 1 < 8" by simp_all
  from True c r r1 show ?thesis
    by (simp add: text2x_def wire_text2x_loop wire_ssd1306DataBegin wire_setPosition
        row_body_frames[OF r, symmetric] row_body_frames[OF r1, symmetric])
next
  case False
  then have "row > NUM_ROWS - 2" by (simp add: NUM_ROWS_def word_less_nat_alt not_less word_le_nat_alt)
  with False show ?thesis by (simp add: text2x_def)
qed

lemma rows_map_cong:
  "(\<And>r. r < 8 \<Longrightarrow> f r = g r) \<Longrightarrow>
    concat (map f [a..<min lim 8]) = concat (map g [a..<min lim 8])"
  by (rule arg_cong[where f = concat], rule map_cong) auto

lemma wire_fillAreaWithByte:
  "wire (fillAreaWithByte startRow startColumn rows columns b s) = wire s @
     concat (map (\<lambda>r. row_frames (fInvertData s) (of_nat r) startColumn
                          (replicate (cols_left startColumn columns startColumn) b))
                 (rows_visited startRow rows))"
proof -
  have "wire (fillAreaWithByte_rows startRow startColumn rows columns b row s) = wire s @
     concat (map (\<lambda>r.
        (if (of_nat r :: u8) < 8 \<and> startColumn < 128 then position_frame (of_nat r) startColumn else []) @
        start_ops @ byte_ops 0x78 @ byte_ops 0x40 @
        payload_ops (fInvertData s) (replicate (cols_left startColumn columns startColumn) b) @ stop_ops)
      [unat row..<min (unat startRow + unat rows) 8])" for row
    by (rule rows_loop_wire[where L = "fillAreaWithByte_rows startRow startColumn rows columns b"
          and lim = "unat startRow + unat rows"
          and body = "\<lambda>row s. ssd1306DataEnd (fillAreaWithByte_cols startColumn columns b startColumn
                (ssd1306DataBegin (setPosition row startColumn s)))"])
       (simp_all add: fillAreaWithByte_rows.simps[of startRow startColumn rows columns b]
          wire_fillAreaWithByte_cols wire_ssd1306DataBegin wire_setPosition)
  then show ?thesis
    by (simp add: fillAreaWithByte_def rows_visited_def
        rows_map_cong[OF row_body_frames[OF of_nat_row_lt]])
qed

lemma wire_fillAreaWithBytes:
  "wire (fillAreaWithBytes startRow startColumn rows columns pattern patternSize s) = wire s @
     concat (map (\<lambda>r. row_frames (fInvertData s) (of_nat r) startColumn
                          (map (\<lambda>k. pattern (k mod max (unat patternSize) 1))
                             [0..<cols_left startColumn columns startColumn]))
                 (rows_visited startRow rows))"
proof -
  have "wire (fillAreaWithBytes_rows startRow startColumn rows columns pattern patternSize row s) = wire s @
     concat (map (\<lambda>r.
        (if (of_nat r :: u8) < 8 \<and> startColumn < 128 then position_frame (of_nat r) startColumn else []) @
        start_ops @ byte_ops 0x78 @ byte_ops 0x40 @
        payload_ops (fInvertData s) (map (\<lambda>k. pattern (k mod max (unat patternSize) 1))
                             [0..<cols_left startColumn columns startColumn]) @ stop_ops)
      [unat row..<min (unat startRow + unat rows) 8])" for row
    by (rule rows_loop_wire[where
          L = "fillAreaWithBytes_rows startRow startColumn rows columns pattern patternSize"
          and lim = "unat startRow + unat rows"
          and body = "\<lambda>row s. ssd1306DataEnd
                (fillAreaWithBytes_cols startColumn columns pattern patternSize startColumn 0
                (ssd1306DataBegin (setPosition row startColumn s)))"])
       (simp_all add: fillAreaWithBytes_rows.simps[of startRow startColumn rows columns pattern patternSize]
          wire_fillAreaWithBytes_cols wire_ssd1306DataBegin wire_setPosition)
  then show ?thesis
    by (simp add: fillAreaWithBytes_def rows_visited_def
        rows_map_cong[OF row_body_frames[OF of_nat_row_lt]])
qed

lemma unat_of_nat_row: "r < 8 \<Longrightarrow> unat (of_nat r :: u8) = r"
  by (simp add: unat_of_nat)

lemma wire_drawImage:
  "wire (drawImage startRow startColumn imageRows imageColumns img s) = wire s @
     concat (map (\<lambda>r. row_frames (fInvertData s) (of_nat r) startColumn
                          (map (\<lambda>k. img ((r - unat startRow) * unat imageColumns + k))
                             [0..<cols_left startColumn imageColumns startColumn]))
                 (rows_visited startRow imageRows))"
proof -
  have loop: "wire (drawImage_rows startRow startColumn imageRows imageColumns img row s) = wire s @
     concat (map (\<lambda>r.
        (if (of_nat r :: u8) < 8 \<and> startColumn < 128 then position_frame (of_nat r) startColumn else []) @
        start_ops @ byte_ops 0x78 @ byte_ops 0x40 @
        payload_ops (fInvertData s) (map (\<lambda>k. img ((unat (of_nat r :: u8) - unat startRow) * unat imageColumns + k))
                             [0..<cols_left startColumn imageColumns startColumn]) @ stop_ops)
      [unat row..<min (unat startRow + unat imageRows) 8])" for row
    by (rule rows_loop_wire[where
          L = "drawImage_rows startRow startColumn imageRows imageColumns img"
          and lim = "unat startRow + unat imageRows"
          and body = "\<lambda>row s. ssd1306DataEnd
                (drawImage_cols startColumn imageColumns img startColumn
                ((unat row - unat startRow) * unat imageColumns)
                (ssd1306DataBegin (setPosition row startColumn s)))"])
       (simp_all add: drawImage_rows.simps[of startRow startColumn imageRows imageColumns img]
          wire_drawImage_cols wire_ssd1306DataBegin wire_setPosition)
  have frames: "concat (map (\<lambda>r.
        (if (of_nat r :: u8) < 8 \<and> startColumn < 128 then position_frame (of_nat r) startColumn else []) @
        start_ops @ byte_ops 0x78 @ byte_ops 0x40 @
        payload_ops (fInvertData s) (map (\<lambda>k. img ((unat (of_nat r :: u8) - unat startRow) * unat imageColumns + k))
                             [0..<cols_left startColumn imageColumns startColumn]) @ stop_ops)
      [a..<min (unat startRow + unat imageRows) 8]) =
     concat (map (\<lambda>r. row_frames (fInvertData s) (of_nat r) startColumn
                          (map (\<lambda>k. img ((r - unat startRow) * unat imageColumns + k))
                             [0..<cols_left startColumn imageColumns startColumn]))
      [a..<min (unat startRow + unat imageRows) 8])" for a
    by (rule rows_map_cong) (simp add: unat_of_nat_row row_body_frames[OF of_nat_row_lt])
  show ?thesis
    by (simp only: drawImage_def rows_visited_def loop frames)
qed

lemma wire_fillScreen_rows:
  "\<forall>r \<in> set rs. r < 8 \<Longrightarrow>
   wire (fold (\<lambda>row s. ssd1306DataEnd
                     (fold (\<lambda>col. ssd1306DataPutByte fillByte) [0..<n]
                        (ssd1306DataBegin (setPosition (of_nat row) 0 s)))) rs s) =
   wire s @ concat (map (\<lambda>r. row_frames (fInvertData s) (of_nat r) 0 (replicate n fillByte)) rs)"
proof (induction rs arbitrary: s)
  case Nil
  then show ?case by simp
next
  case (Cons r rs)
  then have r: "(of_nat r :: u8) < 8" by (simp add: of_nat_row_lt)
  have m: "map (\<lambda>col. fillByte) [0..<n] = replicate n fillByte"
    by (simp add: map_replicate_const)
  from Cons r show ?case
    by (simp add: wire_fold_put wire_ssd1306DataBegin wire_setPosition m
        row_body_frames[OF r, symmetric])
qed

lemma wire_fillScreen:
  "wire (fillScreen fillByte s) = wire s @
     concat (map (\<lambda>r. row_frames (fInvertData s) (of_nat r) 0 (replicate 128 fillByte)) [0..<8])"
proof -
  have "\<forall>r \<in> set [0..<8]. r < (8::nat)" by simp
  from wire_fillScreen_rows[OF this, of fillByte 128 s] show ?thesis
    by (simp only: fillScreen_def NUM_ROWS_def NUM_COLUMNS_def unsigned_numeral take_bit_numeral_numeral)
       simp
qed

lemma wire_command:
  "wire (ssd1306CmdEnd (fold i2cSendByte bs (ssd1306CmdBegin s))) = wire s @ command_frame bs"
  by (simp add: wire_fold_i2cSendByte wire_ssd1306CmdBegin command_frame_def frame_ops_def)

lemma wire_ssd1306SendCommand: "wire (ssd1306SendCommand b s) = wire s @ command_frame [b]"
  using wire_command[of "[b]" s] by (simp add: ssd1306SendCommand_def)

lemma wire_setContrast: "wire (setContrast level s) = wire s @ command_frame [0x81, level]"
  using wire_command[of "[CMD_SET_CONTRAST, level]" s] by (simp add: setContrast_def CMD_SET_CONTRAST_def)

lemma wire_initialize:
  "wire (initialize s) = wire s @ [SclHigh, SdaHigh] @ command_frame initCommands"
  by (simp add: initialize_def wire_fold_i2cSendByte wire_ssd1306CmdBegin command_frame_def frame_ops_def
      SCL_MODE_OUTPUT_def SDA_MODE_OUTPUT_def)

lemma length_byte_ops [simp]: "length (byte_ops b) = 27"
  by (simp add: byte_ops_unfolded)

lemma data_op_inj [simp]: "(data_op v = data_op w) = (v = w)"
  by (simp add: data_op_def)

lemma byte_ops_inj [simp]: "(byte_ops a = byte_ops b) = (a = b)"
proof
  assume "byte_ops a = byte_ops b"
  then have bits: "bit a 0 = bit b 0" "bit a 1 = bit b 1" "bit a 2 = bit b 2" "bit a 3 = bit b 3"
    "bit a 4 = bit b 4" "bit a 5 = bit b 5" "bit a 6 = bit b 6" "bit a 7 = bit b 7"
    by (simp_all add: byte_ops_unfolded)
  show "a = b"
  proof (rule bit_word_eqI)
    fix n assume "n < LENGTH(8)"
    then have "n = 0 \<or> n = 1 \<or> n = 2 \<or> n = 3 \<or> n = 4 \<or> n = 5 \<or> n = 6 \<or> n = 7" by auto
    with bits show "bit a n = bit b n" by auto
  qed
qed simp

lemma bytes_ops_inj: "(concat (map byte_ops xs) = concat (map byte_ops ys)) = (xs = ys)"
proof (induction xs arbitrary: ys)
  case Nil
  show ?case by (cases ys) (auto simp add: byte_ops_unfolded)
next
  case (Cons x xs)
  show ?case
  proof (cases ys)
    case Nil
    then show ?thesis by (auto simp add: byte_ops_unfolded)
  next
    case (Cons y ys')
    with Cons.IH[of ys'] show ?thesis by simp
  qed
qed

lemma frame_ops_inj [simp]: "(frame_ops c xs = frame_ops d ys) = (c = d \<and> xs = ys)"
  by (auto simp add: frame_ops_def bytes_ops_inj)

lemma data_frame_inj [simp]: "(data_frame xs = data_frame ys) = (xs = ys)"
  by (simp add: data_frame_def)

lemma command_frame_inj [simp]: "(command_frame xs = command_frame ys) = (xs = ys)"
  by (simp add: command_frame_def)

lemma length_frame_ops [simp]: "length (frame_ops c xs) = 62 + 27 * length xs"
  by (simp add: frame_ops_def start_ops_def stop_ops_def length_concat comp_def sum_list_triv)

lemma of_char_H: "of_char CHR ''H'' = (72::u8)" "of_char CHR ''i'' = (105 :: u8)"
  by simp_all

lemma text_glyph_Hi: "text_glyph CHR ''H'' = 40" "text_glyph CHR ''i'' = 73"
  by (simp_all add: text_glyph_def schar_def)

lemma upt6: "[0..<6] = [0,1,2,3,4,5]"
  by (simp add: upt_rec)

lemma wire_text_Hi:
  "wire (text1x font6x8 2 0 ''Hi'' s) = wire s @ command_frame [0xB2, 0x10, 0x00] @
     data_frame (map (transmitted (fInvertData s))
       [font6x8 240, font6x8 241, font6x8 242, font6x8 243, font6x8 244, font6x8 245,
        font6x8 438, font6x8 439, font6x8 440, font6x8 441, font6x8 442, font6x8 443])"
  by (simp add: wire_text1x row_frames_def position_frame_def glyph6_def text_glyph_Hi upt6)

lemma idle_display_simps [simp]:
  "wire idle_display = []" "\<not> fInvertData idle_display" "lines_idle idle_display"
  by (simp_all add: idle_display_def SSD1306Display_def lines_idle_def clock_level_def data_level_def
      SCL_PIN_def SDA_PIN_def)

lemma fillAreaWithBytes_cols_single:
  "fillAreaWithBytes_cols startColumn columns pattern 1 col 0 s =
   fillAreaWithByte_cols startColumn columns (pattern 0) col s"
proof (induction startColumn columns "pattern 0" col s rule: fillAreaWithByte_cols.induct)
  case (1 startColumn columns col s)
  show ?case
  proof (cases "unat col < unat startColumn + unat columns \<and> col < NUM_COLUMNS")
    case True
    from 1[OF True] show ?thesis
      by (subst fillAreaWithBytes_cols.simps, subst fillAreaWithByte_cols.simps)
         (simp only: if_P[OF True], simp)
  next
    case False
    show ?thesis
      by (subst fillAreaWithBytes_cols.simps, subst fillAreaWithByte_cols.simps)
         (simp only: if_not_P[OF False])
  qed
qed

lemma fillAreaWithBytes_rows_single:
  "fillAreaWithBytes_rows startRow startColumn rows columns pattern 1 row s =
   fillAreaWithByte_rows startRow startColumn rows columns (pattern 0) row s"
proof (induction startRow startColumn rows columns "pattern 0" row s rule: fillAreaWithByte_rows.induct)
  case (1 startRow startColumn rows columns row s)
  show ?case
  proof (cases "unat row < unat startRow + unat rows \<and> row < NUM_ROWS")
    case True
    from 1[OF True] show ?thesis
      by (subst fillAreaWithBytes_rows.simps, subst fillAreaWithByte_rows.simps)
         (simp only: if_P[OF True] fillAreaWithBytes_cols_single)
  next
    case False
    show ?thesis
      by (subst fillAreaWithBytes_rows.simps, subst fillAreaWithByte_rows.simps)
         (simp only: if_not_P[OF False])
  qed
qed

lemma drawn_chars_none: "128 < c + w \<Longrightarrow> drawn_chars w c str = []"
  by (cases str) simp_all

lemma map_upt_from: "map f [a..<a + n] = map (\<lambda>i. f (a + i)) [0..<n]"
proof -
  have "[a..<a + n] = map (\<lambda>i. a + i) [0..<n]"
    using map_add_upt[of a n] by (simp add: add.commute)
  then show ?thesis by (simp add: comp_def)
qed

lemma transmitted_False [simp]: "transmitted False = (\<lambda>b. b)"
  by (simp add: transmitted_def fun_eq_iff)

lemma rows_visited_0_1 [simp]: "rows_visited 0 1 = [0]"
  by (simp add: rows_visited_def)

lemma lines_idle_fold_rows:
  "lines_idle s \<Longrightarrow> lines_idle (fold (\<lambda>row s. ssd1306DataEnd (f row s)) rs s)"
  by (induction rs arbitrary: s) simp_all

lemma lines_idle_fillAreaWithByte:
  "lines_idle s \<Longrightarrow> lines_idle (fillAreaWithByte startRow startColumn rows columns b s)"
  unfolding fillAreaWithByte_def
  by (rule rows_loop_idle[where L = "fillAreaWithByte_rows startRow startColumn rows columns b"
        and lim = "unat startRow + unat rows"
        and body = "\<lambda>row s. ssd1306DataEnd (fillAreaWithByte_cols startColumn columns b startColumn
                (ssd1306DataBegin (setPosition row startColumn s)))"])
     (simp_all add: fillAreaWithByte_rows.simps[of startRow startColumn rows columns b])

lemma lines_idle_fillAreaWithBytes:
  "lines_idle s \<Longrightarrow>
    lines_idle (fillAreaWithBytes startRow startColumn rows columns pattern patternSize s)"
  unfolding fillAreaWithBytes_def
  by (rule rows_loop_idle[where
        L = "fillAreaWithBytes_rows startRow startColumn rows columns pattern patternSize"
        and lim = "unat startRow + unat rows"
        and body = "\<lambda>row s. ssd1306DataEnd
                (fillAreaWithBytes_cols startColumn columns pattern patternSize startColumn 0
                (ssd1306DataBegin (setPosition row startColumn s)))"])
     (simp_all add: fillAreaWithBytes_rows.simps[of startRow startColumn rows columns pattern patternSize])

lemma lines_idle_drawImage:
  "lines_idle s \<Longrightarrow> lines_idle (drawImage startRow startColumn imageRows imageColumns img s)"
  unfolding drawImage_def
  by (rule rows_loop_idle[where
        L = "drawImage_rows startRow startColumn imageRows imageColumns img"
        and lim = "unat startRow + unat imageRows"
        and body = "\<lambda>row s. ssd1306DataEnd
                (drawImage_cols startColumn imageColumns img startColumn
                ((unat row - unat startRow) * unat imageColumns)
                (ssd1306DataBegin (setPosition row startColumn s)))"])
     (simp_all add: drawImage_rows.simps[of startRow startColumn imageRows imageColumns img])

lemma inv_invertData [simp]: "fInvertData (invertData v s) = v" "wire (invertData v s) = wire s"
  "PORTC (invertData v s) = PORTC s" "DDRC (invertData v s) = DDRC s"
  by (simp_all add: invertData_def)

lemma inv_fold_rows:
  "(\<And>row s. fInvertData (f row s) = fInvertData s) \<Longrightarrow> fInvertData (fold f rs s) = fInvertData s"
  by (induction rs arbitrary: s) simp_all

lemma inv_text1x [simp]: "fInvertData (text1x font6x8 row column str s) = fInvertData s"
  by (simp add: text1x_def)

lemma inv_text2x [simp]: "fInvertData (text2x font8x16 row column str s) = fInvertData s"
  by (simp add: text2x_def)

lemma inv_fillScreen [simp]: "fInvertData (fillScreen fillByte s) = fInvertData s"
  unfolding fillScreen_def by (rule inv_fold_rows) simp

lemma inv_fillAreaWithByte [simp]:
  "fInvertData (fillAreaWithByte startRow startColumn rows columns b s) = fInvertData s"
  unfolding fillAreaWithByte_def
  by (rule rows_loop_inv[where L = "fillAreaWithByte_rows startRow startColumn rows columns b"
        and lim = "unat startRow + unat rows"
        and body = "\<lambda>row s. ssd1306DataEnd (fillAreaWithByte_cols startColumn columns b startColumn
                (ssd1306DataBegin (setPosition row startColumn s)))"])
     (simp_all add: fillAreaWithByte_rows.simps[of startRow startColumn rows columns b])

lemma inv_fillAreaWithBytes [simp]:
  "fInvertData (fillAreaWithBytes startRow startColumn rows columns pattern patternSize s) =
    fInvertData s"
  unfolding fillAreaWithBytes_def
  by (rule rows_loop_inv[where
        L = "fillAreaWithBytes_rows startRow startColumn rows columns pattern patternSize"
        and lim = "unat startRow + unat rows"
        and body = "\<lambda>row s. ssd1306DataEnd
                (fillAreaWithBytes_cols startColumn columns pattern patternSize startColumn 0
                (ssd1306DataBegin (setPosition row startColumn s)))"])
     (simp_all add: fillAreaWithBytes_rows.simps[of startRow startColumn rows columns pattern patternSize])

lemma inv_drawImage [simp]:
  "fInvertData (drawImage startRow startColumn imageRows imageColumns img s) = fInvertData s"
  unfolding drawImage_def
  by (rule rows_loop_inv[where
        L = "drawImage_rows startRow startColumn imageRows imageColumns img"
        and lim = "unat startRow + unat imageRows"
        and body = "\<lambda>row s. ssd1306DataEnd
                (drawImage_cols startColumn imageColumns img startColumn
                ((unat row - unat startRow) * unat imageColumns)
                (ssd1306DataBegin (setPosition row startColumn s)))"])
     (simp_all add: drawImage_rows.simps[of startRow startColumn imageRows imageColumns img])

lemma fillAreaWithByte_no_rows:
  "startRow \<ge> 8 \<or> rows = 0 \<Longrightarrow> fillAreaWithByte startRow startColumn rows columns b s = s"
proof -
  assume a: "startRow \<ge> 8 \<or> rows = 0"
  have "(rows = 0) = (unat rows = 0)" by (simp add: unat_eq_0)
  with a have c: "\<not> (unat startRow < unat startRow + unat rows \<and> startRow < NUM_ROWS)"
    by (auto simp add: NUM_ROWS_def word_le_nat_alt word_less_nat_alt)
  show ?thesis
    unfolding fillAreaWithByte_def
    by (subst fillAreaWithByte_rows.simps, subst if_not_P[OF c]) simp
qed

lemma whole_frames_simps [simp]:
  "whole_frames [] = []"
  "whole_frames (f # fs) = one_frame f @ whole_frames fs"
  "whole_frames (fs @ gs) = whole_frames fs @ whole_frames gs"
  by (simp_all add: whole_frames_def)

lemma whole_frames_concat:
  "whole_frames (concat (map f rs)) = concat (map (\<lambda>r. whole_frames (f r)) rs)"
  by (induction rs) simp_all

lemma whole_frames_row [simp]:
  "whole_frames (row_frame_list invert row column bs) = row_frames invert row column bs"
  by (simp add: row_frame_list_def row_frames_def position_frame_def position_bytes_def)

section \<open>The claims\<close>

text \<open>
  C7. For every byte, \<open>i2cSendByte\<close> performs exactly this sequence of line writes: for
  each of the 8 bits, most significant first, the data line is set to the value of the bit,
  then the clock is driven high, then low; after the 8 bits the data line is driven high and
  the clock is pulsed high then low once more. Started with the clock low, every write to
  the data line happens while the clock is low, and the byte ends with the clock low and
  the data line high. The function is made of writes only: no line is ever read.
\<close>

theorem i2cSendByte_line_operations:
  "wire (i2cSendByte b s) = wire s @ byte_ops b \<and>
   byte_ops b =
     [data_op (bit b 7), SclHigh, SclLow, data_op (bit b 6), SclHigh, SclLow,
      data_op (bit b 5), SclHigh, SclLow, data_op (bit b 4), SclHigh, SclLow,
      data_op (bit b 3), SclHigh, SclLow, data_op (bit b 2), SclHigh, SclLow,
      data_op (bit b 1), SclHigh, SclLow, data_op (bit b 0), SclHigh, SclLow,
      SdaHigh, SclHigh, SclLow] \<and>
   data_op True = SdaHigh \<and> data_op False = SdaLow \<and>
   data_changes_while_clock_low False (byte_ops b) \<and>
   \<not> clock_level (i2cSendByte b s) \<and> data_level (i2cSendByte b s)"
proof -
  have "data_changes_while_clock_low False (byte_ops b)"
    by (simp add: byte_ops_unfolded)
  moreover have "byte_ops b =
     [data_op (bit b 7), SclHigh, SclLow, data_op (bit b 6), SclHigh, SclLow,
      data_op (bit b 5), SclHigh, SclLow, data_op (bit b 4), SclHigh, SclLow,
      data_op (bit b 3), SclHigh, SclLow, data_op (bit b 2), SclHigh, SclLow,
      data_op (bit b 1), SclHigh, SclLow, data_op (bit b 0), SclHigh, SclLow,
      SdaHigh, SclHigh, SclLow]"
    by (rule byte_ops_unfolded)
  ultimately show ?thesis by (simp add: data_op_def)
qed

text \<open>
  C1. \<open>setPosition\<close> with \<open>row \<ge> 8\<close> or \<open>column \<ge> 128\<close> writes nothing to the
  link; otherwise it emits exactly one command frame whose payload is the three bytes
  \<open>0xB0 OR row\<close>, \<open>0x10 OR\<close> the top 4 bits of the column, \<open>0x00 OR\<close> the bottom 4
  bits of the column, in that order.
\<close>

theorem setPosition_frame:
  "wire (setPosition row column s) = wire s @
     (if row \<ge> 8 \<or> column \<ge> 128 then []
      else command_frame [0xB0 OR row, 0x10 OR drop_bit 4 column, 0x00 OR take_bit 4 column])"
  by (auto simp add: wire_setPosition position_frame_def not_le)

text \<open>
  C2, as amended. \<open>text(2, 0, "Hi")\<close> with data-invert false produces one position command
  frame selecting row 2, column 0, followed by one data frame of 12 payload bytes: the 6
  bytes of the glyph table for glyph index 40 (character H, code 72), then the 6 bytes for
  glyph index 73 (character i, code 105), that is the table entries 240 to 245 and 438 to 443.
\<close>

theorem text_Hi_frames:
  "\<not> fInvertData s \<Longrightarrow>
   wire (text1x font6x8 2 0 ''Hi'' s) = wire s @ command_frame [0xB2, 0x10, 0x00] @
     data_frame
       [font6x8 240, font6x8 241, font6x8 242, font6x8 243, font6x8 244, font6x8 245,
        font6x8 438, font6x8 439, font6x8 440, font6x8 441, font6x8 442, font6x8 443]"
  by (simp add: wire_text_Hi transmitted_def)

theorem text_Hi_frames_witness:
  "\<not> fInvertData idle_display \<and>
   wire (text1x ramp_font 2 0 ''Hi'' idle_display) = command_frame [0xB2, 0x10, 0x00] @
     data_frame [240, 241, 242, 243, 244, 245, 182, 183, 184, 185, 186, 187]"
  using text_Hi_frames[of idle_display ramp_font] by (simp add: ramp_font_def)

text \<open>
  C2 as stated fails: with a font whose byte at index \<open>i\<close> is \<open>i\<close>, the second glyph sent
  is not the one of index 41 (table entries 246 to 251).
\<close>

theorem text_Hi_counterexample:
  "wire (text1x ramp_font 2 0 ''Hi'' idle_display) \<noteq> wire idle_display @
     command_frame [0xB2, 0x10, 0x00] @
     data_frame
       [ramp_font 240, ramp_font 241, ramp_font 242, ramp_font 243, ramp_font 244, ramp_font 245,
        ramp_font 246, ramp_font 247, ramp_font 248, ramp_font 249, ramp_font 250, ramp_font 251]"
  by (simp add: wire_text_Hi transmitted_def ramp_font_def)

text \<open>
  C3, at the failing input. For the line feed (code 10) both glyph computations give the
  index 234, not 0: only the characters above the upper bound are mapped to 0, and a code
  below 32 wraps around in \<open>*s - 32\<close>. \<open>text\<close> at row 0, column 0 of the string made of a line feed then sends the table entries
  1404 to 1409.
\<close>

theorem control_character_glyph:
  "text_glyph (CHR 0x0A) = 234 \<and> text2x_glyph (CHR 0x0A) = 234 \<and>
   wire (text1x font6x8 0 0 [CHR 0x0A] idle_display) = command_frame [0xB0, 0x10, 0x00] @
     data_frame [font6x8 1404, font6x8 1405, font6x8 1406, font6x8 1407, font6x8 1408, font6x8 1409]"
  by (simp add: wire_text1x row_frames_def position_frame_def glyph6_def text_glyph_def
      text2x_glyph_def schar_def upt6 transmitted_def)

text \<open>
  C6. \<open>fillAreaWithBytes\<close> with a pattern of length 1 leaves the display, and so the whole
  sequence of line writes, exactly as \<open>fillAreaWithByte\<close> with the byte of the pattern and
  the same rectangle does.
\<close>

theorem fillAreaWithBytes_single_byte:
  "fillAreaWithBytes startRow startColumn rows columns pattern 1 s =
   fillAreaWithByte startRow startColumn rows columns (pattern 0) s"
  by (simp add: fillAreaWithBytes_def fillAreaWithByte_def fillAreaWithBytes_rows_single)

text \<open>
  C10. \<open>text\<close> does not validate its column: for every row below 8, every column from 123
  on and every string, it sends no glyph byte but still opens and closes one data frame,
  which carries the address byte 0x78 and the control byte 0x40; when the column is at most
  127 the position command frame precedes it.
\<close>

theorem text_column_past_last_glyph:
  "row < 8 \<Longrightarrow> column \<ge> 123 \<Longrightarrow>
   wire (text1x font6x8 row column str s) = wire s @
     (if column \<le> 127
      then command_frame [0xB0 OR row, 0x10 OR drop_bit 4 column, 0x00 OR take_bit 4 column]
      else []) @
     start_ops @ byte_ops 0x78 @ byte_ops 0x40 @ stop_ops"
proof -
  assume row: "row < 8" and col: "column \<ge> 123"
  from col have "128 < unat column + 6" by (simp add: word_le_nat_alt)
  then have "drawn_chars 6 (unat column) str = []" by (rule drawn_chars_none)
  moreover have "(column \<le> 127) = (column < 128)" by (simp add: word_le_nat_alt word_less_nat_alt) arith
  ultimately show ?thesis using row
    by (simp add: wire_text1x row_frames_def position_frame_def data_frame_def frame_ops_def)
qed

theorem text_column_past_last_glyph_witness:
  "(0::u8) < 8 \<and> (123::u8) \<ge> 123 \<and> (0::u8) < 8 \<and> (200::u8) \<ge> 123 \<and>
   wire (text1x ramp_font 0 123 ''A'' idle_display) =
     command_frame [0xB0, 0x17, 0x0B] @ start_ops @ byte_ops 0x78 @ byte_ops 0x40 @ stop_ops \<and>
   wire (text1x ramp_font 0 200 ''A'' idle_display) =
     start_ops @ byte_ops 0x78 @ byte_ops 0x40 @ stop_ops"
  using text_column_past_last_glyph[of 0 123 ramp_font "''A''" idle_display]
    text_column_past_last_glyph[of 0 200 ramp_font "''A''" idle_display]
  by simp

text \<open>
  C5, as amended. For every rectangle fully inside the screen whose start column is on the
  screen (\<open>startColumn < 128\<close>) or which has no rows, with data-invert false, \<open>drawImage\<close> transmits for each
  image row \<open>i\<close> one position command for row \<open>startRow + i\<close> and one data frame with the
  bytes \<open>img (i * imageColumns + j)\<close>: \<open>imageRows\<close> position commands and
  \<open>imageRows * imageColumns\<close> payload bytes.
\<close>

theorem drawImage_inside:
  assumes rows: "unat startRow + unat imageRows \<le> 8"
    and cols: "unat startColumn + unat imageColumns \<le> 128"
    and col: "startColumn < 128 \<or> imageRows = 0"
    and inv: "\<not> fInvertData s"
  shows "wire (drawImage startRow startColumn imageRows imageColumns img s) =
    wire s @ image_frames startRow startColumn imageRows imageColumns img"
proof -
  from rows have rv: "rows_visited startRow imageRows = [unat startRow..<unat startRow + unat imageRows]"
    by (simp add: rows_visited_def)
  from cols have cl: "cols_left startColumn imageColumns startColumn = unat imageColumns"
    by (simp add: cols_left_def)
  from col show ?thesis
  proof
    assume "startColumn < 128"
    with inv show ?thesis
      by (simp add: wire_drawImage rv cl map_upt_from image_frames_def row_frames_def comp_def)
  next
    assume "imageRows = 0"
    then show ?thesis
      by (simp add: wire_drawImage rows_visited_def image_frames_def)
  qed
qed

theorem drawImage_inside_witness:
  "unat (2::u8) + unat (2::u8) \<le> 8 \<and> unat (5::u8) + unat (3::u8) \<le> 128 \<and>
   ((5::u8) < 128 \<or> (2::u8) = 0) \<and> \<not> fInvertData idle_display \<and>
   wire (drawImage 2 5 2 3 ramp_font idle_display) =
     command_frame [0xB2, 0x10, 0x05] @ data_frame [0, 1, 2] @
     command_frame [0xB3, 0x10, 0x05] @ data_frame [3, 4, 5]"
proof -
  have "wire (drawImage 2 5 2 3 ramp_font idle_display) =
      wire idle_display @ image_frames 2 5 2 3 ramp_font"
    by (rule drawImage_inside) simp_all
  then show ?thesis
    by (simp add: image_frames_def position_frame_def ramp_font_def upt_rec)
qed

text \<open>
  C5 as stated fails for the empty rectangle at the right edge: \<open>startColumn = 128\<close> and
  \<open>imageColumns = 0\<close> satisfy both inequalities, but \<open>setPosition\<close> returns early for column
  128, so the row sends an empty data frame and no position command.
\<close>

theorem drawImage_empty_at_right_edge_counterexample:
  "unat (0::u8) + unat (1::u8) \<le> 8 \<and> unat (128::u8) + unat (0::u8) \<le> 128 \<and>
   wire (drawImage 0 128 1 0 blank_image idle_display) = data_frame [] \<and>
   wire (drawImage 0 128 1 0 blank_image idle_display) \<noteq>
     wire idle_display @ image_frames 0 128 1 0 blank_image"
proof -
  have w: "wire (drawImage 0 128 1 0 blank_image idle_display) = data_frame []"
    by (simp add: wire_drawImage row_frames_def cols_left_def)
  have "length (data_frame []) \<noteq> length (image_frames 0 128 1 0 blank_image)"
    by (simp add: image_frames_def position_frame_def data_frame_def command_frame_def)
  then have "data_frame [] \<noteq> image_frames 0 128 1 0 blank_image" by auto
  with w show ?thesis by simp
qed

text \<open>
  C8, as amended. For every rectangle entirely outside the screen, \<open>fillAreaWithByte\<close>
  transmits no payload byte. When \<open>startRow \<ge> 8\<close> or \<open>rows = 0\<close> no row is visited and
  nothing is written to the link. Otherwise every visited row still sends an empty data frame
  (address byte and control byte), preceded by the position command when the start column
  is on the screen.
\<close>

theorem fillAreaWithByte_outside:
  assumes "startRow \<ge> 8 \<or> startColumn \<ge> 128 \<or> rows = 0 \<or> columns = 0"
  shows "wire (fillAreaWithByte startRow startColumn rows columns b s) = wire s @
           concat (map (\<lambda>r. (if startColumn < 128 then position_frame (of_nat r) startColumn else []) @
                              data_frame [])
                       (rows_visited startRow rows))
         \<and> (if startRow \<ge> 8 \<or> rows = 0
             then fillAreaWithByte startRow startColumn rows columns b s = s
             else rows_visited startRow rows \<noteq> [])"
proof -
  have "(rows = 0) = (unat rows = 0)" by (simp add: unat_eq_0)
  then have rv: "(rows_visited startRow rows = []) = (startRow \<ge> 8 \<or> rows = 0)"
    by (simp add: rows_visited_def word_le_nat_alt) arith
  show ?thesis
  proof (cases "startRow \<ge> 8 \<or> rows = 0")
    case True
    with rv have "rows_visited startRow rows = []" by simp
    with True show ?thesis by (simp add: fillAreaWithByte_no_rows)
  next
    case False
    with assms have "startColumn \<ge> 128 \<or> columns = 0" by auto
    then have "cols_left startColumn columns startColumn = 0"
      by (auto simp add: cols_left_def word_le_nat_alt)
    with False rv show ?thesis
      by (simp add: wire_fillAreaWithByte row_frames_def)
  qed
qed

theorem fillAreaWithByte_outside_witness:
  "((0::u8) \<ge> 8 \<or> (128::u8) \<ge> 128 \<or> (1::u8) = 0 \<or> (1::u8) = 0) \<and>
   wire (fillAreaWithByte 0 128 1 1 0xFF idle_display) = data_frame [] \<and>
   ((9::u8) \<ge> 8 \<or> (0::u8) \<ge> 128 \<or> (1::u8) = 0 \<or> (1::u8) = 0) \<and>
   fillAreaWithByte 9 0 1 1 0xFF idle_display = idle_display"
  using fillAreaWithByte_outside[of 0 128 1 1 "0xFF" idle_display]
    fillAreaWithByte_outside[of 9 0 1 1 "0xFF" idle_display]
  by (auto split: if_splits)

text \<open>
  C8 as stated fails: for \<open>startColumn = 128\<close> and a row on the screen, the address byte and
  the control byte of an empty data frame are transmitted.
\<close>

theorem fillAreaWithByte_outside_counterexample:
  "(128::u8) \<ge> 128 \<and>
   wire (fillAreaWithByte 0 128 1 1 0xFF idle_display) =
     start_ops @ byte_ops 0x78 @ byte_ops 0x40 @ stop_ops \<and>
   wire (fillAreaWithByte 0 128 1 1 0xFF idle_display) \<noteq> wire idle_display"
  by (simp add: wire_fillAreaWithByte row_frames_def cols_left_def data_frame_def frame_ops_def
      start_ops_def)

text \<open>
  C9. Started with both lines high, every public operation that transmits (\<open>initialize\<close>,
  \<open>setPosition\<close>, \<open>text\<close>, \<open>text2x\<close>, \<open>fillScreen\<close>, \<open>fillAreaWithByte\<close>,
  \<open>fillAreaWithBytes\<close>, \<open>drawImage\<close>, \<open>setContrast\<close>, \<open>invertScreen\<close>, \<open>sleep\<close>)
  returns with the clock and the data line both driven high again, and what it has written to
  the link is a list of whole frames: every frame it opens is closed by its stop condition
  before the next one starts and before the operation returns. (\<open>initialize\<close> first drives
  the two lines high, then sends its one command frame.)
\<close>

theorem operations_return_idle:
  assumes "lines_idle s"
  shows
   "lines_idle (initialize s) \<and>
    wire (initialize s) = wire s @ [SclHigh, SdaHigh] @ whole_frames [Command initCommands] \<and>
    lines_idle (setPosition row column s) \<and>
    wire (setPosition row column s) = wire s @
      whole_frames (if row < 8 \<and> column < 128 then [Command (position_bytes row column)] else []) \<and>
    lines_idle (text1x font6x8 row column str s) \<and>
    wire (text1x font6x8 row column str s) = wire s @
      whole_frames
        (if row < 8
         then row_frame_list (fInvertData s) row column
                (concat (map (glyph6 font6x8) (drawn_chars 6 (unat column) str)))
         else []) \<and>
    lines_idle (text2x font8x16 row column str s) \<and>
    wire (text2x font8x16 row column str s) = wire s @
      whole_frames
        (if row < 7
         then row_frame_list (fInvertData s) row column
                (concat (map (glyph16 font8x16 0) (drawn_chars 8 (unat column) str))) @
              row_frame_list (fInvertData s) (row + 1) column
                (concat (map (glyph16 font8x16 8) (drawn_chars 8 (unat column) str)))
         else []) \<and>
    lines_idle (fillScreen fillByte s) \<and>
    wire (fillScreen fillByte s) = wire s @
      whole_frames
        (concat (map (\<lambda>r. row_frame_list (fInvertData s) (of_nat r) 0 (replicate 128 fillByte))
                     [0..<8])) \<and>
    lines_idle (fillAreaWithByte startRow startColumn rows columns b s) \<and>
    wire (fillAreaWithByte startRow startColumn rows columns b s) = wire s @
      whole_frames
        (concat (map (\<lambda>r. row_frame_list (fInvertData s) (of_nat r) startColumn
                              (replicate (cols_left startColumn columns startColumn) b))
                     (rows_visited startRow rows))) \<and>
    lines_idle (fillAreaWithBytes startRow startColumn rows columns pattern patternSize s) \<and>
    wire (fillAreaWithBytes startRow startColumn rows columns pattern patternSize s) = wire s @
      whole_frames
        (concat (map (\<lambda>r. row_frame_list (fInvertData s) (of_nat r) startColumn
                              (map (\<lambda>k. pattern (k mod max (unat patternSize) 1))
                                 [0..<cols_left startColumn columns startColumn]))
                     (rows_visited startRow rows))) \<and>
    lines_idle (drawImage startRow startColumn imageRows imageColumns img s) \<and>
    wire (drawImage startRow startColumn imageRows imageColumns img s) = wire s @
      whole_frames
        (concat (map (\<lambda>r. row_frame_list (fInvertData s) (of_nat r) startColumn
                              (map (\<lambda>k. img ((r - unat startRow) * unat imageColumns + k))
                                 [0..<cols_left startColumn imageColumns startColumn]))
                     (rows_visited startRow imageRows))) \<and>
    lines_idle (setContrast level s) \<and>
    wire (setContrast level s) = wire s @ whole_frames [Command [0x81, level]] \<and>
    lines_idle (invertScreen v s) \<and>
    wire (invertScreen v s) = wire s @ whole_frames [Command [if v then 0xA7 else 0xA6]] \<and>
    lines_idle (sleep v s) \<and>
    wire (sleep v s) = wire s @ whole_frames [Command [if v then 0xAE else 0xAF]]"
proof -
  have idle: "lines_idle (initialize s)" "lines_idle (setPosition row column s)"
    "lines_idle (text1x font6x8 row column str s)" "lines_idle (text2x font8x16 row column str s)"
    "lines_idle (fillScreen fillByte s)"
    "lines_idle (fillAreaWithByte startRow startColumn rows columns b s)"
    "lines_idle (fillAreaWithBytes startRow startColumn rows columns pattern patternSize s)"
    "lines_idle (drawImage startRow startColumn imageRows imageColumns img s)"
    "lines_idle (setContrast level s)" "lines_idle (invertScreen v s)" "lines_idle (sleep v s)"
    using assms
    by (simp_all add: initialize_def lines_idle_setPosition text1x_def text2x_def fillScreen_def
      lines_idle_fold_rows lines_idle_fillAreaWithByte lines_idle_fillAreaWithBytes
      lines_idle_drawImage setContrast_def invertScreen_def sleep_def ssd1306SendCommand_def)
  have w1: "wire (initialize s) = wire s @ [SclHigh, SdaHigh] @ whole_frames [Command initCommands]"
    by (simp add: wire_initialize)
  have w2: "wire (setPosition row column s) = wire s @
      whole_frames (if row < 8 \<and> column < 128 then [Command (position_bytes row column)] else [])"
    by (simp add: wire_setPosition position_frame_def position_bytes_def)
  have w3: "wire (text1x font6x8 row column str s) = wire s @
      whole_frames
        (if row < 8
         then row_frame_list (fInvertData s) row column
                (concat (map (glyph6 font6x8) (drawn_chars 6 (unat column) str)))
         else [])"
    by (simp add: wire_text1x)
  have w4: "wire (text2x font8x16 row column str s) = wire s @
      whole_frames
        (if row < 7
         then row_frame_list (fInvertData s) row column
                (concat (map (glyph16 font8x16 0) (drawn_chars 8 (unat column) str))) @
              row_frame_list (fInvertData s) (row + 1) column
                (concat (map (glyph16 font8x16 8) (drawn_chars 8 (unat column) str)))
         else [])"
    by (simp add: wire_text2x)
  have w5: "wire (fillScreen fillByte s) = wire s @
      whole_frames
        (concat (map (\<lambda>r. row_frame_list (fInvertData s) (of_nat r) 0 (replicate 128 fillByte))
                     [0..<8]))"
    by (simp only: wire_fillScreen whole_frames_concat whole_frames_row)
  have w6: "wire (fillAreaWithByte startRow startColumn rows columns b s) = wire s @
      whole_frames
        (concat (map (\<lambda>r. row_frame_list (fInvertData s) (of_nat r) startColumn
                              (replicate (cols_left startColumn columns startColumn) b))
                     (rows_visited startRow rows)))"
    by (simp only: wire_fillAreaWithByte whole_frames_concat whole_frames_row)
  have w7: "wire (fillAreaWithBytes startRow startColumn rows columns pattern patternSize s) = wire s @
      whole_frames
        (concat (map (\<lambda>r. row_frame_list (fInvertData s) (of_nat r) startColumn
                              (map (\<lambda>k. pattern (k mod max (unat patternSize) 1))
                                 [0..<cols_left startColumn columns startColumn]))
                     (rows_visited startRow rows)))"
    by (simp only: wire_fillAreaWithBytes whole_frames_concat whole_frames_row)
  have w8: "wire (drawImage startRow startColumn imageRows imageColumns img s) = wire s @
      whole_frames
        (concat (map (\<lambda>r. row_frame_list (fInvertData s) (of_nat r) startColumn
                              (map (\<lambda>k. img ((r - unat startRow) * unat imageColumns + k))
                                 [0..<cols_left startColumn imageColumns startColumn]))
                     (rows_visited startRow imageRows)))"
    by (simp only: wire_drawImage whole_frames_concat whole_frames_row)
  have w9: "wire (setContrast level s) = wire s @ whole_frames [Command [0x81, level]]"
    by (simp add: wire_setContrast)
  have w10: "wire (invertScreen v s) = wire s @ whole_frames [Command [if v then 0xA7 else 0xA6]]"
    by (simp add: invertScreen_def wire_ssd1306SendCommand CMD_INVERT_ON_def CMD_INVERT_OFF_def)
  have w11: "wire (sleep v s) = wire s @ whole_frames [Command [if v then 0xAE else 0xAF]]"
    by (simp add: sleep_def wire_ssd1306SendCommand CMD_DISPLAY_OFF_def CMD_DISPLAY_ON_def)
  from idle w1 w2 w3 w4 w5 w6 w7 w8 w9 w10 w11 show ?thesis by blast
qed


theorem operations_return_idle_witness:
  "lines_idle idle_display \<and>
    lines_idle (initialize idle_display) \<and>
    wire (initialize idle_display) = [SclHigh, SdaHigh] @ command_frame initCommands \<and>
    lines_idle (setPosition 2 5 idle_display) \<and>
    wire (setPosition 2 5 idle_display) = command_frame [0xB2, 0x10, 0x05] \<and>
    lines_idle (text1x ramp_font 2 5 ''Hi'' idle_display) \<and>
    wire (text1x ramp_font 2 5 ''Hi'' idle_display) =
      command_frame [0xB2, 0x10, 0x05] @
      data_frame [240, 241, 242, 243, 244, 245, 182, 183, 184, 185, 186, 187] \<and>
    lines_idle (text2x ramp_font 2 5 ''!'' idle_display) \<and>
    wire (text2x ramp_font 2 5 ''!'' idle_display) =
      command_frame [0xB2, 0x10, 0x05] @ data_frame [16, 17, 18, 19, 20, 21, 22, 23] @
      command_frame [0xB3, 0x10, 0x05] @ data_frame [24, 25, 26, 27, 28, 29, 30, 31] \<and>
    lines_idle (fillScreen 0xFF idle_display) \<and>
    lines_idle (fillAreaWithByte 1 3 2 4 0xFF idle_display) \<and>
    wire (fillAreaWithByte 1 3 2 4 0xFF idle_display) =
      command_frame [0xB1, 0x10, 0x03] @ data_frame [0xFF, 0xFF, 0xFF, 0xFF] @
      command_frame [0xB2, 0x10, 0x03] @ data_frame [0xFF, 0xFF, 0xFF, 0xFF] \<and>
    lines_idle (fillAreaWithBytes 1 3 2 4 ramp_font 2 idle_display) \<and>
    wire (fillAreaWithBytes 1 3 2 4 ramp_font 2 idle_display) =
      command_frame [0xB1, 0x10, 0x03] @ data_frame [0, 1, 0, 1] @
      command_frame [0xB2, 0x10, 0x03] @ data_frame [0, 1, 0, 1] \<and>
    lines_idle (drawImage 1 3 2 4 ramp_font idle_display) \<and>
    wire (drawImage 1 3 2 4 ramp_font idle_display) =
      command_frame [0xB1, 0x10, 0x03] @ data_frame [0, 1, 2, 3] @
      command_frame [0xB2, 0x10, 0x03] @ data_frame [4, 5, 6, 7] \<and>
    lines_idle (setContrast 127 idle_display) \<and>
    wire (setContrast 127 idle_display) = command_frame [0x81, 127] \<and>
    lines_idle (invertScreen True idle_display) \<and>
    wire (invertScreen True idle_display) = command_frame [0xA7] \<and>
    lines_idle (sleep True idle_display) \<and>
    wire (sleep True idle_display) = command_frame [0xAE]"
proof -
  have h: "lines_idle idle_display" by simp
  have up: "[0..<4] = [0, 1, 2, 3]" "[0..<8] = [0, 1, 2, 3, 4, 5, 6, 7::nat]" by (simp_all add: upt_rec)
  have g: "text_glyph CHR ''H'' = 40" "text_glyph CHR ''i'' = 73" "text2x_glyph CHR ''!'' = 1"
    by (simp_all add: text_glyph_def text2x_glyph_def schar_def)
  have rv: "rows_visited 1 2 = [1, 2]" by (simp add: rows_visited_def upt_rec)
  have cl: "cols_left 3 4 3 = 4" by (simp add: cols_left_def)
  have rep: "replicate 4 x = [x, x, x, x]" for x :: u8 by (simp add: numeral_eq_Suc)
  have two: "Suc (Suc 0) = 2" by simp
  have md: "(2::nat) mod Suc (Suc 0) = 0" "(3::nat) mod Suc (Suc 0) = 1"
    unfolding two by simp_all
  note t = operations_return_idle[OF h, of 2 5 ramp_font "''Hi''" ramp_font "0xFF" 1 3 2 4 "0xFF"
      ramp_font 2 2 4 ramp_font 127 True]
  note t2 = operations_return_idle[OF h, of 2 5 ramp_font "''!''" ramp_font "0xFF" 1 3 2 4 "0xFF"
      ramp_font 2 2 4 ramp_font 127 True]
  have a: "wire (text2x ramp_font 2 5 ''!'' idle_display) =
      command_frame [0xB2, 0x10, 0x05] @ data_frame [16, 17, 18, 19, 20, 21, 22, 23] @
      command_frame [0xB3, 0x10, 0x05] @ data_frame [24, 25, 26, 27, 28, 29, 30, 31]"
    "lines_idle (text2x ramp_font 2 5 ''!'' idle_display)"
    using t2
    by (simp_all add: row_frame_list_def position_bytes_def glyph16_def g up ramp_font_def
        del: upt_Suc)
  from t a show ?thesis
    by (simp add: row_frame_list_def position_bytes_def glyph6_def g up upt6 rv cl rep md
        ramp_font_def del: upt_Suc)
qed

text \<open>
  C4. \<open>invertData\<close> writes nothing to the link and leaves the registers alone. After
  \<open>invertData True\<close> a payload byte \<open>b\<close> goes out as its complement \<open>NOT b\<close>, after
  \<open>invertData False\<close> as \<open>b\<close> itself. For each drawing operation run after
  \<open>invertData v\<close>, the payload of every data frame is the list of the bytes the operation
  supplies (glyph bytes, fill byte, pattern bytes, image bytes), each mapped by
  \<open>transmitted v\<close>, while the position commands are not affected; and no drawing operation
  changes the flag, so it stays in force for the operations that follow.
\<close>

theorem invertData_complements_payload:
  "wire (invertData v s) = wire s \<and> PORTC (invertData v s) = PORTC s \<and>
   DDRC (invertData v s) = DDRC s \<and>
   wire (ssd1306DataPutByte b (invertData True s)) = wire s @ byte_ops (NOT b) \<and>
   wire (ssd1306DataPutByte b (invertData False s)) = wire s @ byte_ops b \<and>
   transmitted True b = NOT b \<and> transmitted False b = b \<and>
   wire (text1x font6x8 row column str (invertData v s)) = wire s @
     (if row < 8
      then (if column < 128 then position_frame row column else []) @
           data_frame (map (transmitted v)
             (concat (map (glyph6 font6x8) (drawn_chars 6 (unat column) str))))
      else []) \<and>
   wire (text2x font8x16 row column str (invertData v s)) = wire s @
     (if row < 7
      then (if column < 128 then position_frame row column else []) @
           data_frame (map (transmitted v)
             (concat (map (glyph16 font8x16 0) (drawn_chars 8 (unat column) str)))) @
           (if column < 128 then position_frame (row + 1) column else []) @
           data_frame (map (transmitted v)
             (concat (map (glyph16 font8x16 8) (drawn_chars 8 (unat column) str))))
      else []) \<and>
   wire (fillScreen fillByte (invertData v s)) = wire s @
     concat (map (\<lambda>r. position_frame (of_nat r) 0 @
                        data_frame (map (transmitted v) (replicate 128 fillByte))) [0..<8]) \<and>
   wire (fillAreaWithByte startRow startColumn rows columns b (invertData v s)) = wire s @
     concat (map (\<lambda>r. (if startColumn < 128 then position_frame (of_nat r) startColumn else []) @
                        data_frame (map (transmitted v)
                          (replicate (cols_left startColumn columns startColumn) b)))
                 (rows_visited startRow rows)) \<and>
   wire (fillAreaWithBytes startRow startColumn rows columns pattern patternSize (invertData v s)) =
     wire s @
     concat (map (\<lambda>r. (if startColumn < 128 then position_frame (of_nat r) startColumn else []) @
                        data_frame (map (transmitted v)
                          (map (\<lambda>k. pattern (k mod max (unat patternSize) 1))
                             [0..<cols_left startColumn columns startColumn])))
                 (rows_visited startRow rows)) \<and>
   wire (drawImage startRow startColumn imageRows imageColumns img (invertData v s)) = wire s @
     concat (map (\<lambda>r. (if startColumn < 128 then position_frame (of_nat r) startColumn else []) @
                        data_frame (map (transmitted v)
                          (map (\<lambda>k. img ((r - unat startRow) * unat imageColumns + k))
                             [0..<cols_left startColumn imageColumns startColumn])))
                 (rows_visited startRow imageRows)) \<and>
   fInvertData (text1x font6x8 row column str s) = fInvertData s \<and>
   fInvertData (text2x font8x16 row column str s) = fInvertData s \<and>
   fInvertData (fillScreen fillByte s) = fInvertData s \<and>
   fInvertData (fillAreaWithByte startRow startColumn rows columns b s) = fInvertData s \<and>
   fInvertData (fillAreaWithBytes startRow startColumn rows columns pattern patternSize s) =
     fInvertData s \<and>
   fInvertData (drawImage startRow startColumn imageRows imageColumns img s) = fInvertData s \<and>
   fInvertData (setPosition row column s) = fInvertData s"
  by (simp add: wire_ssd1306DataPutByte wire_text1x wire_text2x wire_fillScreen wire_fillAreaWithByte
      wire_fillAreaWithBytes wire_drawImage row_frames_def transmitted_def del: upt_Suc replicate_Suc)

end
